theory Spec2Isabelle
  imports Main
begin

section \<open>JavaScript strings\<close>

text \<open>
  A source text is a list of code units. The model covers the code units below 256
  (\<^typ>\<open>char\<close>); of the characters that \<^verbatim>\<open>\s\<close> and \<^verbatim>\<open>trim()\<close> treat as white space,
  these are TAB, LF, VT, FF, CR, SP and NBSP, and the line terminators among them are
  LF and CR.
\<close>

definition isSpace :: "char \<Rightarrow> bool" where
  "isSpace c = ((of_char c :: nat) \<in> {9, 10, 11, 12, 13, 32, 160})"

definition isLineTerminator :: "char \<Rightarrow> bool" where
  "isLineTerminator c = ((of_char c :: nat) \<in> {10, 13})"

definition inRange :: "char \<Rightarrow> char \<Rightarrow> char \<Rightarrow> bool" where
  "inRange lo hi c = ((of_char lo :: nat) \<le> of_char c \<and> (of_char c :: nat) \<le> of_char hi)"

text \<open>\<^verbatim>\<open>\w\<close> is \<^verbatim>\<open>[A-Za-z0-9_]\<close>.\<close>

definition isWord :: "char \<Rightarrow> bool" where
  "isWord c = (inRange CHR ''A'' CHR ''Z'' c \<or> inRange CHR ''a'' CHR ''z'' c
               \<or> inRange CHR ''0'' CHR ''9'' c \<or> c = CHR ''_'')"

text \<open>\<^verbatim>\<open>s.trim()\<close>\<close>

definition trim :: "string \<Rightarrow> string" where
  "trim s = rev (dropWhile isSpace (rev (dropWhile isSpace s)))"

text \<open>
  \<^verbatim>\<open>s.slice(a, b)\<close> and \<^verbatim>\<open>s.slice(a)\<close> for offsets \<open>a, b \<ge> 0\<close>: the code units from
  \<open>min a (length s)\<close> up to \<open>min b (length s)\<close>, nothing when \<open>b \<le> a\<close>.
\<close>

definition slice :: "string \<Rightarrow> nat \<Rightarrow> nat \<Rightarrow> string" where
  "slice s a b = take (b - a) (drop a s)"

definition slice_from :: "string \<Rightarrow> nat \<Rightarrow> string" where
  "slice_from s a = drop a s"

text \<open>\<^verbatim>\<open>s.indexOf(c, from)\<close>; \<open>None\<close> is the result \<open>-1\<close>.\<close>

definition indexOf :: "string \<Rightarrow> char \<Rightarrow> nat \<Rightarrow> nat option" where
  "indexOf s c from = List.find (\<lambda>i. s ! i = c) [from..<length s]"

text \<open>\<^verbatim>\<open>xs.join(sep)\<close>\<close>

fun join :: "string \<Rightarrow> string list \<Rightarrow> string" where
  "join sep [] = []"
| "join sep [x] = x"
| "join sep (x # y # ys) = x @ sep @ join sep (y # ys)"

section \<open>Regular expressions\<close>

text \<open>
  The patterns of the source use literals, character classes, sequence, alternation,
  the greedy quantifiers \<^verbatim>\<open>*\<close>, \<^verbatim>\<open>+\<close>, \<^verbatim>\<open>?\<close>, capture groups and the assertions
  \<^verbatim>\<open>^\<close>, \<^verbatim>\<open>$\<close>, \<^verbatim>\<open>\b\<close>.
\<close>

datatype cls =
    Ch char                 \<comment> \<open>one character\<close>
  | Rng char char           \<comment> \<open>\<^verbatim>\<open>a-z\<close>\<close>
  | Space                   \<comment> \<open>\<^verbatim>\<open>\s\<close>\<close>
  | Neg cls                 \<comment> \<open>\<^verbatim>\<open>[^...]\<close>\<close>
  | Union "cls list"        \<comment> \<open>\<^verbatim>\<open>[...]\<close>\<close>

fun in_cls :: "cls \<Rightarrow> char \<Rightarrow> bool" where
  "in_cls (Ch a) c = (c = a)"
| "in_cls (Rng lo hi) c = inRange lo hi c"
| "in_cls Space c = isSpace c"
| "in_cls (Neg k) c = (\<not> in_cls k c)"
| "in_cls (Union ks) c = list_ex (\<lambda>k. in_cls k c) ks"

datatype rx =
    Lit string              \<comment> \<open>the characters in a row\<close>
  | Cls cls                 \<comment> \<open>one character of the class\<close>
  | Seqs "rx list"          \<comment> \<open>one after the other\<close>
  | Alts "rx list"          \<comment> \<open>\<^verbatim>\<open>a|b|c\<close>, tried from the left\<close>
  | Star rx                 \<comment> \<open>\<^verbatim>\<open>r*\<close>\<close>
  | Plus rx                 \<comment> \<open>\<^verbatim>\<open>r+\<close>\<close>
  | Opt rx                  \<comment> \<open>\<^verbatim>\<open>r?\<close>\<close>
  | Grp nat rx              \<comment> \<open>capture group number n\<close>
  | Caret                   \<comment> \<open>\<^verbatim>\<open>^\<close>\<close>
  | Dollar                  \<comment> \<open>\<^verbatim>\<open>$\<close>\<close>
  | WordB                   \<comment> \<open>\<^verbatim>\<open>\b\<close>\<close>

text \<open>
  A matcher state is the current offset and the captures made so far. The matcher of a
  pattern maps a state to the states in which the pattern can end, in the order in which
  the backtracking matcher of the language tries them: what is left of the pattern is
  tried on the first of them, then on the second, and so on, so that the match found is
  the first state of the whole pattern's list.
\<close>

type_synonym captures = "(nat \<times> string) list"
type_synonym mstate = "nat \<times> captures"

text \<open>
  \<^verbatim>\<open>r*\<close> is greedy: one more round of \<open>r\<close> is tried before stopping, and a round that
  consumes nothing is rejected (so is the one round of \<^verbatim>\<open>r?\<close>, and every round of
  \<^verbatim>\<open>r+\<close> after the first). The first argument bounds the number of rounds by the
  number of characters left; as every round consumes a character, the bound changes
  nothing (\<open>Star_any_bound\<close> below).
\<close>

fun star_ends :: "nat \<Rightarrow> (mstate \<Rightarrow> mstate list) \<Rightarrow> mstate \<Rightarrow> mstate list" where
  "star_ends 0 f s = [s]"
| "star_ends (Suc n) f s =
     concat (map (star_ends n f) (filter (\<lambda>s'. fst s < fst s') (f s))) @ [s]"

text \<open>A sequence: every end of the first part is a start of the rest.\<close>

fun seq_ends :: "(mstate \<Rightarrow> mstate list) list \<Rightarrow> mstate \<Rightarrow> mstate list" where
  "seq_ends [] s = [s]"
| "seq_ends (f # fs) s = concat (map (seq_ends fs) (f s))"

text \<open>The flag \<open>ml\<close> is the pattern's \<^verbatim>\<open>m\<close> (multiline) flag.\<close>

primrec ends :: "rx \<Rightarrow> bool \<Rightarrow> string \<Rightarrow> mstate \<Rightarrow> mstate list" where
  "ends (Lit w) ml t s =
     (if take (length w) (drop (fst s) t) = w then [(fst s + length w, snd s)] else [])"
| "ends (Cls k) ml t s =
     (if fst s < length t \<and> in_cls k (t ! fst s) then [(Suc (fst s), snd s)] else [])"
| "ends (Seqs rs) ml t s = seq_ends (map (\<lambda>r. ends r ml t) rs) s"
| "ends (Alts rs) ml t s = concat (map (\<lambda>r. ends r ml t s) rs)"
| "ends (Star r) ml t s = star_ends (length t - fst s) (ends r ml t) s"
| "ends (Plus r) ml t s =
     concat (map (\<lambda>s'. star_ends (length t - fst s') (ends r ml t) s') (ends r ml t s))"
| "ends (Opt r) ml t s = filter (\<lambda>s'. fst s < fst s') (ends r ml t s) @ [s]"
| "ends (Grp n r) ml t s =
     map (\<lambda>s'. (fst s', (n, slice t (fst s) (fst s')) # snd s')) (ends r ml t s)"
| "ends Caret ml t s =
     (if fst s = 0 \<or> (ml \<and> fst s \<le> length t \<and> isLineTerminator (t ! (fst s - 1)))
      then [s] else [])"
| "ends Dollar ml t s =
     (if fst s = length t \<or> (ml \<and> fst s < length t \<and> isLineTerminator (t ! fst s))
      then [s] else [])"
| "ends WordB ml t s =
     (if (0 < fst s \<and> fst s \<le> length t \<and> isWord (t ! (fst s - 1)))
         \<noteq> (fst s < length t \<and> isWord (t ! fst s))
      then [s] else [])"

text \<open>
  The result of a match: \<^verbatim>\<open>match.index\<close>, the offset just after the match, and the
  capture groups; \<open>group m n\<close> is \<^verbatim>\<open>match[n]\<close>, \<open>None\<close> when the group took no part.
\<close>

record rmatch =
  m_index :: nat
  m_finish :: nat
  m_groups :: captures

definition group :: "rmatch \<Rightarrow> nat \<Rightarrow> string option" where
  "group m n = map_of (m_groups m) n"

text \<open>
  \<^verbatim>\<open>match[n]\<close> of a group that takes part in every match of its pattern, as the groups
  do that the source reads as strings (\<open>nsRegex_groups\<close> and \<open>typeRegex_groups\<close> below).
\<close>

definition group_str :: "rmatch \<Rightarrow> nat \<Rightarrow> string" where
  "group_str m n = (case group m n of Some w \<Rightarrow> w | None \<Rightarrow> [])"

definition match_at :: "rx \<Rightarrow> bool \<Rightarrow> string \<Rightarrow> nat \<Rightarrow> rmatch option" where
  "match_at r ml t i =
     (case ends r ml t (i, []) of
        [] \<Rightarrow> None
      | s # _ \<Rightarrow> Some \<lparr>m_index = i, m_finish = fst s, m_groups = snd s\<rparr>)"

fun first_match :: "rx \<Rightarrow> bool \<Rightarrow> string \<Rightarrow> nat list \<Rightarrow> rmatch option" where
  "first_match r ml t [] = None"
| "first_match r ml t (i # is) =
     (case match_at r ml t i of Some m \<Rightarrow> Some m | None \<Rightarrow> first_match r ml t is)"

text \<open>
  \<^verbatim>\<open>re.exec(t)\<close> of a pattern with the \<^verbatim>\<open>g\<close> flag, whose \<^verbatim>\<open>lastIndex\<close> is the last
  argument: the match is looked for at \<^verbatim>\<open>lastIndex\<close>, then one offset further, up to the
  end of the text. The second component is the new \<^verbatim>\<open>lastIndex\<close>: the end of the
  match, or 0 when there is none.
\<close>

definition exec :: "rx \<Rightarrow> bool \<Rightarrow> string \<Rightarrow> nat \<Rightarrow> rmatch option \<times> nat" where
  "exec r ml t lastIndex =
     (case first_match r ml t [lastIndex..<Suc (length t)] of
        None \<Rightarrow> (None, 0)
      | Some m \<Rightarrow> (Some m, m_finish m))"

text \<open>\<^verbatim>\<open>t.search(re)\<close>; \<open>None\<close> is the result \<open>-1\<close>.\<close>

definition search :: "rx \<Rightarrow> bool \<Rightarrow> string \<Rightarrow> nat option" where
  "search r ml t = map_option m_index (first_match r ml t [0..<Suc (length t)])"

subsection \<open>Every end lies within the text\<close>

text \<open>A lower bound on the number of characters that a match of the pattern consumes.\<close>

primrec lb :: "rx \<Rightarrow> nat" where
  "lb (Lit w) = length w"
| "lb (Cls k) = 1"
| "lb (Seqs rs) = sum_list (map lb rs)"
| "lb (Alts rs) = (case map lb rs of [] \<Rightarrow> 0 | n # ns \<Rightarrow> foldr min ns n)"
| "lb (Star r) = 0"
| "lb (Plus r) = lb r"
| "lb (Opt r) = 0"
| "lb (Grp n r) = lb r"
| "lb Caret = 0"
| "lb Dollar = 0"
| "lb WordB = 0"

lemma star_ends_bounds:
  assumes f: "\<And>s s'. fst s \<le> length t \<Longrightarrow> s' \<in> set (f s) \<Longrightarrow> fst s \<le> fst s' \<and> fst s' \<le> length t"
  shows "fst s \<le> length t \<Longrightarrow> s' \<in> set (star_ends n f s) \<Longrightarrow> fst s \<le> fst s' \<and> fst s' \<le> length t"
proof (induction n arbitrary: s)
  case 0
  then show ?case by simp
next
  case (Suc n)
  from Suc.prems(2) consider "s' = s"
    | s1 where "s1 \<in> set (f s)" "fst s < fst s1" "s' \<in> set (star_ends n f s1)"
    by auto
  then show ?case
  proof cases
    case 1
    with Suc.prems(1) show ?thesis by simp
  next
    case 2
    from f[OF Suc.prems(1) 2(1)] have b: "fst s \<le> fst s1" "fst s1 \<le> length t" by simp_all
    from Suc.IH[OF b(2) 2(3)] b show ?thesis by simp
  qed
qed

lemma seq_ends_bounds:
  assumes f: "\<And>g s s'. g \<in> set (zip fs ns) \<Longrightarrow> fst s \<le> length t \<Longrightarrow> s' \<in> set (fst g s)
               \<Longrightarrow> fst s + snd g \<le> fst s' \<and> fst s' \<le> length t"
    and len: "length fs = length ns"
  shows "fst s \<le> length t \<Longrightarrow> s' \<in> set (seq_ends fs s)
         \<Longrightarrow> fst s + sum_list ns \<le> fst s' \<and> fst s' \<le> length t"
  using f len
proof (induction fs arbitrary: s ns)
  case Nil
  then show ?case by simp
next
  case (Cons g gs)
  from Cons.prems(4) obtain n ms where ns: "ns = n # ms" "length gs = length ms"
    by (cases ns) auto
  from Cons.prems(2) obtain s1 where s1: "s1 \<in> set (g s)" "s' \<in> set (seq_ends gs s1)"
    by auto
  have b1: "fst s + n \<le> fst s1 \<and> fst s1 \<le> length t"
    using Cons.prems(3)[of "(g, n)" s s1] Cons.prems(1) s1(1) ns(1) by simp
  have "fst s1 + sum_list ms \<le> fst s' \<and> fst s' \<le> length t"
  proof (rule Cons.IH[OF _ s1(2) _ ns(2)])
    show "fst s1 \<le> length t" using b1 by simp
  next
    fix h s2 s3
    assume "h \<in> set (zip gs ms)" "fst s2 \<le> length t" "s3 \<in> set (fst h s2)"
    then show "fst s2 + snd h \<le> fst s3 \<and> fst s3 \<le> length t"
      using Cons.prems(3)[of h s2 s3] ns(1) by simp
  qed
  with b1 ns(1) show ?case by simp
qed

lemma foldr_min_le: "(m::nat) \<in> set (n # ns) \<Longrightarrow> foldr min ns n \<le> m"
  by (induction ns) (auto simp: min_def)

lemma ends_bounds:
  "fst s \<le> length t \<Longrightarrow> s' \<in> set (ends r ml t s)
   \<Longrightarrow> fst s + lb r \<le> fst s' \<and> fst s' \<le> length t"
proof (induction r arbitrary: s s')
  case (Lit w)
  from Lit.prems(2) have e: "take (length w) (drop (fst s) t) = w" "fst s' = fst s + length w"
    by (auto split: if_splits)
  have "length (take (length w) (drop (fst s) t)) \<le> length t - fst s" by simp
  with e(1) have "length w \<le> length t - fst s" by simp
  with e(2) Lit.prems(1) show ?case by simp
next
  case (Cls k)
  then show ?case by (auto split: if_splits)
next
  case (Seqs rs)
  have "fst s + sum_list (map lb rs) \<le> fst s' \<and> fst s' \<le> length t"
  proof (rule seq_ends_bounds[where fs = "map (\<lambda>r. ends r ml t) rs"])
    show "length (map (\<lambda>r. ends r ml t) rs) = length (map lb rs)" by simp
    show "fst s \<le> length t" by (rule Seqs.prems(1))
    show "s' \<in> set (seq_ends (map (\<lambda>r. ends r ml t) rs) s)" using Seqs.prems(2) by simp
  next
    fix g s1 s2
    assume g: "g \<in> set (zip (map (\<lambda>r. ends r ml t) rs) (map lb rs))"
      and b: "fst s1 \<le> length t" and m: "s2 \<in> set (fst g s1)"
    from g obtain r where r: "r \<in> set rs" "g = (ends r ml t, lb r)"
      by (auto simp: zip_map_map zip_same)
    from Seqs.IH[OF r(1) b] m r(2) show "fst s1 + snd g \<le> fst s2 \<and> fst s2 \<le> length t"
      by simp
  qed
  then show ?case by simp
next
  case (Alts rs)
  from Alts.prems(2) obtain r where r: "r \<in> set rs" "s' \<in> set (ends r ml t s)"
    by auto
  from Alts.IH[OF r(1) Alts.prems(1) r(2)] have b: "fst s + lb r \<le> fst s'" "fst s' \<le> length t"
    by simp_all
  from r(1) obtain n ns where ns: "map lb rs = n # ns" by (cases rs) auto
  from r(1) have "lb r \<in> set (map lb rs)" by simp
  with ns have "foldr min ns n \<le> lb r" using foldr_min_le by metis
  with b ns show ?case by simp
next
  case (Star r)
  have "fst s \<le> fst s' \<and> fst s' \<le> length t"
  proof (rule star_ends_bounds[where f = "ends r ml t" and n = "length t - fst s"])
    show "fst s \<le> length t" by (rule Star.prems(1))
    show "s' \<in> set (star_ends (length t - fst s) (ends r ml t) s)" using Star.prems(2) by simp
  next
    fix s1 s2 assume "fst s1 \<le> length t" "s2 \<in> set (ends r ml t s1)"
    from Star.IH[OF this] show "fst s1 \<le> fst s2 \<and> fst s2 \<le> length t" by simp
  qed
  then show ?case by simp
next
  case (Plus r)
  from Plus.prems(2) obtain s1 where s1: "s1 \<in> set (ends r ml t s)"
      "s' \<in> set (star_ends (length t - fst s1) (ends r ml t) s1)"
    by auto
  from Plus.IH[OF Plus.prems(1) s1(1)] have b: "fst s + lb r \<le> fst s1" "fst s1 \<le> length t"
    by simp_all
  have "fst s1 \<le> fst s' \<and> fst s' \<le> length t"
  proof (rule star_ends_bounds[where f = "ends r ml t" and n = "length t - fst s1"])
    show "fst s1 \<le> length t" by (rule b(2))
    show "s' \<in> set (star_ends (length t - fst s1) (ends r ml t) s1)" by (rule s1(2))
  next
    fix s2 s3 assume "fst s2 \<le> length t" "s3 \<in> set (ends r ml t s2)"
    from Plus.IH[OF this] show "fst s2 \<le> fst s3 \<and> fst s3 \<le> length t" by simp
  qed
  with b show ?case by simp
next
  case (Opt r)
  then show ?case by fastforce
next
  case (Grp n r)
  then show ?case by fastforce
next
  case Caret
  then show ?case by (auto split: if_splits)
next
  case Dollar
  then show ?case by (auto split: if_splits)
next
  case WordB
  then show ?case by (auto split: if_splits)
qed

lemma first_match_Some:
  "first_match r ml t is = Some m \<Longrightarrow> m_index m \<in> set is \<and> match_at r ml t (m_index m) = Some m"
  by (induction "is") (auto simp: match_at_def split: option.splits list.splits)

lemma match_at_bounds:
  "match_at r ml t i = Some m \<Longrightarrow> i \<le> length t
   \<Longrightarrow> m_index m = i \<and> i + lb r \<le> m_finish m \<and> m_finish m \<le> length t"
proof -
  assume a: "match_at r ml t i = Some m" and i: "i \<le> length t"
  from a obtain s ss where e: "ends r ml t (i, []) = s # ss"
      "m = \<lparr>m_index = i, m_finish = fst s, m_groups = snd s\<rparr>"
    by (auto simp: match_at_def split: list.splits)
  from e(1) have "s \<in> set (ends r ml t (i, []))" by simp
  from ends_bounds[OF _ this] i e(2) show ?thesis by simp
qed

lemma exec_Some:
  assumes "exec r ml t lastIndex = (Some m, li)"
  shows "lastIndex \<le> m_index m \<and> m_index m + lb r \<le> m_finish m \<and> m_finish m \<le> length t
         \<and> li = m_finish m"
proof -
  from assms have fm: "first_match r ml t [lastIndex..<Suc (length t)] = Some m" "li = m_finish m"
    by (auto simp del: upt_Suc simp: exec_def split: option.splits)
  from first_match_Some[OF fm(1)] have i: "lastIndex \<le> m_index m" "m_index m \<le> length t"
    "match_at r ml t (m_index m) = Some m" by auto
  from match_at_bounds[OF i(3) i(2)] i(1) fm(2) show ?thesis by simp
qed

lemma exec_None: "exec r ml t lastIndex = (None, li) \<Longrightarrow> li = 0"
  by (auto simp: exec_def split: option.splits)

text \<open>
  The bound on the rounds of \<^verbatim>\<open>r*\<close> cuts no match off: with any larger bound the ends are
  the same.
\<close>

lemma star_ends_more_rounds:
  assumes f: "\<And>s s'. fst s \<le> L \<Longrightarrow> s' \<in> set (f s) \<Longrightarrow> fst s' \<le> L"
  shows "fst s \<le> L \<Longrightarrow> L - fst s \<le> n \<Longrightarrow> star_ends (Suc n) f s = star_ends n f s"
proof (induction n arbitrary: s)
  case 0
  then have "filter (\<lambda>s'. fst s < fst s') (f s) = []"
    using f[of s] by (fastforce simp: filter_empty_conv)
  then show ?case by simp
next
  case (Suc n)
  have "star_ends (Suc n) f s1 = star_ends n f s1"
    if "s1 \<in> set (filter (\<lambda>s'. fst s < fst s') (f s))" for s1
  proof (rule Suc.IH)
    from that f[OF Suc.prems(1)] show "fst s1 \<le> L" by simp
    from that Suc.prems(2) show "L - fst s1 \<le> n" by auto
  qed
  then have m: "map (star_ends (Suc n) f) (filter (\<lambda>s'. fst s < fst s') (f s))
             = map (star_ends n f) (filter (\<lambda>s'. fst s < fst s') (f s))"
    by (intro map_cong) (simp_all del: star_ends.simps)
  have "star_ends (Suc (Suc n)) f s
        = concat (map (star_ends (Suc n) f) (filter (\<lambda>s'. fst s < fst s') (f s))) @ [s]"
    by (rule star_ends.simps(2))
  also have "\<dots> = concat (map (star_ends n f) (filter (\<lambda>s'. fst s < fst s') (f s))) @ [s]"
    by (simp only: m)
  also have "\<dots> = star_ends (Suc n) f s"
    by (rule star_ends.simps(2)[symmetric])
  finally show ?case .
qed

lemma star_ends_enough:
  assumes f: "\<And>s s'. fst s \<le> L \<Longrightarrow> s' \<in> set (f s) \<Longrightarrow> fst s' \<le> L"
    and s: "fst s \<le> L"
  shows "star_ends (L - fst s + k) f s = star_ends (L - fst s) f s"
proof (induction k)
  case 0
  show ?case by simp
next
  case (Suc k)
  have "star_ends (Suc (L - fst s + k)) f s = star_ends (L - fst s + k) f s"
    by (rule star_ends_more_rounds[OF f s]) simp_all
  with Suc show ?case by simp
qed

lemma Star_any_bound:
  assumes "fst s \<le> length t" "length t - fst s \<le> n"
  shows "star_ends n (ends r ml t) s = ends (Star r) ml t s"
proof -
  from assms(2) obtain k where n: "n = length t - fst s + k"
    using le_Suc_ex by blast
  have "star_ends (length t - fst s + k) (ends r ml t) s
        = star_ends (length t - fst s) (ends r ml t) s"
  proof (rule star_ends_enough)
    fix s1 s2 assume "fst s1 \<le> length t" "s2 \<in> set (ends r ml t s1)"
    from ends_bounds[OF this] show "fst s2 \<le> length t" by simp
  qed (rule assms(1))
  with n show ?thesis by simp
qed

section \<open>Insertion-ordered maps\<close>

text \<open>
  A \<^verbatim>\<open>Map\<close> with string keys: the entries in insertion order. Setting a key that is
  present replaces its value in place; a new key goes to the end.
\<close>

type_synonym strmap = "(string \<times> string) list"

definition map_get :: "strmap \<Rightarrow> string \<Rightarrow> string option" where
  "map_get m k = map_of m k"

fun map_set :: "strmap \<Rightarrow> string \<Rightarrow> string \<Rightarrow> strmap" where
  "map_set [] k v = [(k, v)]"
| "map_set (p # ps) k v = (if fst p = k then (k, v) # ps else p # map_set ps k v)"

section \<open>The namespace partitioner of the decompiler module\<close>

text \<open>\<^verbatim>\<open>/\bnamespace\s+([A-Za-z_][A-Za-z0-9_\.]*)\s*(;|\{)/g\<close>\<close>

definition nsRegex :: rx where
  "nsRegex = Seqs
     [WordB, Lit ''namespace'', Plus (Cls Space),
      Grp 1 (Seqs
        [Cls (Union [Rng CHR ''A'' CHR ''Z'', Rng CHR ''a'' CHR ''z'', Ch CHR ''_'']),
         Star (Cls (Union [Rng CHR ''A'' CHR ''Z'', Rng CHR ''a'' CHR ''z'',
                           Rng CHR ''0'' CHR ''9'', Ch CHR ''_'', Ch CHR ''.'']))]),
      Star (Cls Space),
      Grp 2 (Alts [Lit '';'', Lit ''{''])]"

datatype ns_kind = File | Block

record token =
  index :: nat
  name :: string
  kind :: ns_kind

lemma lb_nsRegex: "lb nsRegex = 12"
  by (simp add: nsRegex_def)

lemma nsRegex_measure:
  assumes "x = Some m" "exec nsRegex False t li = (x, y)"
  shows "((t, y, toks'), (t, li, toks))
         \<in> measure (\<lambda>(text, lastIndex, tokens). Suc (length text) - lastIndex)"
proof -
  from assms have "exec nsRegex False t li = (Some m, y)" by simp
  from exec_Some[OF this] have "li \<le> m_index m" "m_index m + 12 \<le> m_finish m"
    "m_finish m \<le> length t" "y = m_finish m"
    by (simp_all add: lb_nsRegex)
  then have "Suc (length t) - y < Suc (length t) - li" by arith
  then show ?thesis by simp
qed

text \<open>
  The tokenizer loop \<^verbatim>\<open>while ((match = nsRegex.exec(text)) !== null) tokens.push(...)\<close>.
  The second argument is \<^verbatim>\<open>nsRegex.lastIndex\<close>, which \<^verbatim>\<open>exec\<close> updates; the loop
  returns the tokens together with the \<^verbatim>\<open>lastIndex\<close> it leaves behind.
\<close>

function splitByNamespace_tokens :: "string \<Rightarrow> nat \<Rightarrow> token list \<Rightarrow> token list \<times> nat" where
  "splitByNamespace_tokens text lastIndex tokens =
     (case exec nsRegex False text lastIndex of
        (None, lastIndex') \<Rightarrow> (tokens, lastIndex')
      | (Some match, lastIndex') \<Rightarrow>
          splitByNamespace_tokens text lastIndex'
            (tokens @ [\<lparr>index = m_index match, name = group_str match 1,
                        kind = (if group_str match 2 = '';'' then File else Block)\<rparr>]))"
  by pat_completeness auto
termination
  apply (relation "measure (\<lambda>(text, lastIndex, tokens). Suc (length text) - lastIndex)")
   apply simp
  apply (rule nsRegex_measure[OF _ sym]; assumption)
  done

declare splitByNamespace_tokens.simps [simp del]

text \<open>
  The helper \<^verbatim>\<open>append\<close>:
  \<^verbatim>\<open>if (!chunk) return; const prev = result.get(ns) || ''; result.set(ns, prev + chunk.trim() + '\n')\<close>.
\<close>

definition splitByNamespace_append :: "strmap \<Rightarrow> string \<Rightarrow> string \<Rightarrow> strmap" where
  "splitByNamespace_append result ns chunk =
     (if chunk = [] then result
      else (let prev = (case map_get result ns of None \<Rightarrow> [] | Some p \<Rightarrow> if p = [] then [] else p)
            in map_set result ns (prev @ trim chunk @ ''\<newline>'')))"

text \<open>
  The brace counter
  \<^verbatim>\<open>while (j < text.length) { const ch = text[j++]; if (ch === '{') depth++; else if (ch === '}') { depth--; if (depth === 0) break; } }\<close>;
  the result is the final \<open>j\<close>.
\<close>

function splitByNamespace_braces :: "string \<Rightarrow> nat \<Rightarrow> int \<Rightarrow> nat" where
  "splitByNamespace_braces text j depth =
     (if j < length text then
        (let ch = text ! j in
         if ch = CHR ''{'' then splitByNamespace_braces text (j + 1) (depth + 1)
         else if ch = CHR ''}'' then
           (if depth - 1 = 0 then j + 1
            else splitByNamespace_braces text (j + 1) (depth - 1))
         else splitByNamespace_braces text (j + 1) depth)
      else j)"
  by pat_completeness auto
termination
  by (relation "measure (\<lambda>(text, j, depth). length text - j)") auto

declare splitByNamespace_braces.simps [simp del]

text \<open>
  One round of \<^verbatim>\<open>for (let i = 0; i < tokens.length; i++)\<close> on the state
  \<open>(result, cursor)\<close>. \<open>lastIndex\<close> is \<^verbatim>\<open>nsRegex.lastIndex\<close> as the tokenizer loop left
  it. A block token whose brace is not found leaves the state as it is (\<^verbatim>\<open>continue\<close>).
\<close>

definition splitByNamespace_body ::
  "string \<Rightarrow> token list \<Rightarrow> nat \<Rightarrow> strmap \<times> nat \<Rightarrow> nat \<Rightarrow> strmap \<times> nat" where
  "splitByNamespace_body text tokens lastIndex st i =
     (let (result0, cursor) = st;
          t = tokens ! i;
          result = (if i = 0 \<and> index t > cursor
                    then splitByNamespace_append result0 ''(global)'' (slice text cursor (index t))
                    else result0)
      in if kind t = File then
           (let start = lastIndex;
                nextIdx = (if i + 1 < length tokens then index (tokens ! (i + 1)) else length text)
            in (splitByNamespace_append result (name t) (slice text start nextIdx), nextIdx))
         else
           (case indexOf text CHR ''{'' (index t) of
              None \<Rightarrow> (result, cursor)
            | Some braceStart \<Rightarrow>
                (let j = splitByNamespace_braces text braceStart 0;
                     nextIdx = j
                 in (splitByNamespace_append result (name t)
                       (slice text (braceStart + 1) (nextIdx - 1)), nextIdx))))"

text \<open>
  \<^verbatim>\<open>splitByNamespace(text)\<close>: without tokens the text goes to \<^verbatim>\<open>(global)\<close> as it is;
  otherwise the loop runs over the tokens and what follows the final cursor is appended to
  \<^verbatim>\<open>(global)\<close>.
\<close>

definition splitByNamespace :: "string \<Rightarrow> strmap" where
  "splitByNamespace text =
     (let (tokens, lastIndex) = splitByNamespace_tokens text 0 []
      in if length tokens = 0 then map_set [] ''(global)'' text
         else
           (let (result, cursor) =
                  foldl (splitByNamespace_body text tokens lastIndex) ([], 0) [0..<length tokens]
            in if cursor < length text
               then splitByNamespace_append result ''(global)'' (slice_from text cursor)
               else result))"

section \<open>The namespace partitioner of the service class\<close>

text \<open>
  \<^verbatim>\<open>DecompilerService._splitByNamespace\<close> of \<^verbatim>\<open>index.js\<close> is written out a second time in
  the source, with the same pattern \<^verbatim>\<open>nsRegex\<close>; it is translated on its own here.
\<close>

text \<open>
  The tokenizer loop \<^verbatim>\<open>while ((match = nsRegex.exec(text)) !== null) tokens.push(...)\<close>.
  The second argument is \<^verbatim>\<open>nsRegex.lastIndex\<close>, which \<^verbatim>\<open>exec\<close> updates; the loop
  returns the tokens together with the \<^verbatim>\<open>lastIndex\<close> it leaves behind.
\<close>

function DecompilerService_tokens :: "string \<Rightarrow> nat \<Rightarrow> token list \<Rightarrow> token list \<times> nat" where
  "DecompilerService_tokens text lastIndex tokens =
     (case exec nsRegex False text lastIndex of
        (None, lastIndex') \<Rightarrow> (tokens, lastIndex')
      | (Some match, lastIndex') \<Rightarrow>
          DecompilerService_tokens text lastIndex'
            (tokens @ [\<lparr>index = m_index match, name = group_str match 1,
                        kind = (if group_str match 2 = '';'' then File else Block)\<rparr>]))"
  by pat_completeness auto
termination
  apply (relation "measure (\<lambda>(text, lastIndex, tokens). Suc (length text) - lastIndex)")
   apply simp
  apply (rule nsRegex_measure[OF _ sym]; assumption)
  done

declare DecompilerService_tokens.simps [simp del]

text \<open>
  The helper \<^verbatim>\<open>append\<close> ("Helper to push content into map"):
  \<^verbatim>\<open>if (!chunk) return; const prev = result.get(ns) || ''; result.set(ns, prev + chunk.trim() + '\n')\<close>.
\<close>

definition DecompilerService_append :: "strmap \<Rightarrow> string \<Rightarrow> string \<Rightarrow> strmap" where
  "DecompilerService_append result ns chunk =
     (if chunk = [] then result
      else (let prev = (case map_get result ns of None \<Rightarrow> [] | Some p \<Rightarrow> if p = [] then [] else p)
            in map_set result ns (prev @ trim chunk @ ''\<newline>'')))"

text \<open>
  The brace counter
  \<^verbatim>\<open>while (j < text.length) { const ch = text[j++]; if (ch === '{') depth++; else if (ch === '}') { depth--; if (depth === 0) break; } }\<close>;
  the result is the final \<open>j\<close>.
\<close>

function DecompilerService_braces :: "string \<Rightarrow> nat \<Rightarrow> int \<Rightarrow> nat" where
  "DecompilerService_braces text j depth =
     (if j < length text then
        (let ch = text ! j in
         if ch = CHR ''{'' then DecompilerService_braces text (j + 1) (depth + 1)
         else if ch = CHR ''}'' then
           (if depth - 1 = 0 then j + 1
            else DecompilerService_braces text (j + 1) (depth - 1))
         else DecompilerService_braces text (j + 1) depth)
      else j)"
  by pat_completeness auto
termination
  by (relation "measure (\<lambda>(text, j, depth). length text - j)") auto

declare DecompilerService_braces.simps [simp del]

text \<open>
  One round of \<^verbatim>\<open>for (let i = 0; i < tokens.length; i++)\<close> on the state
  \<open>(result, cursor)\<close>. \<open>lastIndex\<close> is \<^verbatim>\<open>nsRegex.lastIndex\<close> as the tokenizer loop left
  it. A block token whose brace is not found leaves the state as it is (\<^verbatim>\<open>continue\<close>).
\<close>

definition DecompilerService_body ::
  "string \<Rightarrow> token list \<Rightarrow> nat \<Rightarrow> strmap \<times> nat \<Rightarrow> nat \<Rightarrow> strmap \<times> nat" where
  "DecompilerService_body text tokens lastIndex st i =
     (let (result0, cursor) = st;
          t = tokens ! i;
          result = (if i = 0 \<and> index t > cursor
                    then DecompilerService_append result0 ''(global)'' (slice text cursor (index t))
                    else result0)
      in if kind t = File then
           (let start = lastIndex;
                nextIdx = (if i + 1 < length tokens then index (tokens ! (i + 1)) else length text)
            in (DecompilerService_append result (name t) (slice text start nextIdx), nextIdx))
         else
           (case indexOf text CHR ''{'' (index t) of
              None \<Rightarrow> (result, cursor)
            | Some braceStart \<Rightarrow>
                (let j = DecompilerService_braces text braceStart 0;
                     nextIdx = j
                 in (DecompilerService_append result (name t)
                       (slice text (braceStart + 1) (nextIdx - 1)), nextIdx))))"

text \<open>
  \<^verbatim>\<open>_splitByNamespace(text)\<close>: without tokens the text goes to \<^verbatim>\<open>(global)\<close> as it is;
  otherwise the loop runs over the tokens and what follows the final cursor is appended to
  \<^verbatim>\<open>(global)\<close>.
\<close>

definition DecompilerService_splitByNamespace :: "string \<Rightarrow> strmap" where
  "DecompilerService_splitByNamespace text =
     (let (tokens, lastIndex) = DecompilerService_tokens text 0 []
      in if length tokens = 0 then map_set [] ''(global)'' text
         else
           (let (result, cursor) =
                  foldl (DecompilerService_body text tokens lastIndex) ([], 0) [0..<length tokens]
            in if cursor < length text
               then DecompilerService_append result ''(global)'' (slice_from text cursor)
               else result))"

section \<open>The using lines of \<^verbatim>\<open>decompileAndSplit\<close>\<close>

text \<open>\<^verbatim>\<open>/\bnamespace\b/\<close>\<close>

definition namespaceWord :: rx where
  "namespaceWord = Seqs [WordB, Lit ''namespace'', WordB]"

text \<open>\<^verbatim>\<open>/^using\s+[^;]+;\s*$/gm\<close>\<close>

definition usingRegex :: rx where
  "usingRegex = Seqs
     [Caret, Lit ''using'', Plus (Cls Space), Plus (Cls (Neg (Ch CHR '';''))), Lit '';'',
      Star (Cls Space), Dollar]"

lemma match_all_measure:
  assumes "(Some m, y) = exec r ml t li"
  shows "((r, ml, t, if m_finish m = m_index m then y + 1 else y), (r, ml, t, li))
         \<in> measure (\<lambda>(r, ml, t, lastIndex). Suc (length t) - lastIndex)"
proof -
  from assms have "exec r ml t li = (Some m, y)" by simp
  from exec_Some[OF this] have "li \<le> m_index m" "m_index m \<le> m_finish m"
    "m_finish m \<le> length t" "y = m_finish m"
    by simp_all
  then have "Suc (length t) - (if m_finish m = m_index m then y + 1 else y) < Suc (length t) - li"
    by (simp split: if_splits) arith
  then show ?thesis by simp
qed

text \<open>
  \<^verbatim>\<open>t.match(re)\<close> for a pattern with the \<^verbatim>\<open>g\<close> flag: the matched substrings of the
  successive calls of \<^verbatim>\<open>exec\<close>; after an empty match \<^verbatim>\<open>lastIndex\<close> moves on by one.
  The empty list is the result \<^verbatim>\<open>null\<close>, which the source replaces by \<^verbatim>\<open>[]\<close>.
\<close>

function match_all :: "rx \<Rightarrow> bool \<Rightarrow> string \<Rightarrow> nat \<Rightarrow> string list" where
  "match_all r ml t lastIndex =
     (case exec r ml t lastIndex of
        (None, lastIndex') \<Rightarrow> []
      | (Some m, lastIndex') \<Rightarrow>
          slice t (m_index m) (m_finish m)
            # match_all r ml t (if m_finish m = m_index m then lastIndex' + 1 else lastIndex'))"
  by pat_completeness auto
termination
  apply (relation "measure (\<lambda>(r, ml, t, lastIndex). Suc (length t) - lastIndex)")
   apply simp
  apply hypsubst
  apply (rule match_all_measure; assumption)
  done

declare match_all.simps [simp del]

text \<open>
  The lines of \<^verbatim>\<open>decompileAndSplit\<close> that compute \<^verbatim>\<open>usingLines\<close> from the combined text:
  \<^verbatim>\<open>const firstNsIdx = combined.search(/\bnamespace\b/);\<close>
  \<^verbatim>\<open>const headerBlock = firstNsIdx > 0 ? combined.slice(0, firstNsIdx) : '';\<close>
  \<^verbatim>\<open>const usingLines = (headerBlock.match(/^using\s+[^;]+;\s*$/gm) || []).join('\n');\<close>
\<close>

definition decompileAndSplit_usingLines :: "string \<Rightarrow> string" where
  "decompileAndSplit_usingLines combined =
     (let firstNsIdx = search namespaceWord False combined;
          headerBlock = (case firstNsIdx of
                           None \<Rightarrow> []
                         | Some i \<Rightarrow> if i > 0 then slice combined 0 i else []);
          usingLines = join ''\<newline>'' (match_all usingRegex True headerBlock 0)
      in usingLines)"

section \<open>The type splitter of the service class\<close>

text \<open>
  \<^verbatim>\<open>/(^|\n)\s*(?:public|internal|protected|private|sealed|abstract|static|partial|readonly|ref|unsafe|new|\s)*\s*(class|struct|interface|enum|record)\s+([A-Za-z_][A-Za-z0-9_]*)(?:\s*<[^>]+>)?/g\<close>
\<close>

definition typeRegex :: rx where
  "typeRegex = Seqs
     [Grp 1 (Alts [Caret, Lit ''\<newline>'']),
      Star (Cls Space),
      Star (Alts [Lit ''public'', Lit ''internal'', Lit ''protected'', Lit ''private'',
                  Lit ''sealed'', Lit ''abstract'', Lit ''static'', Lit ''partial'',
                  Lit ''readonly'', Lit ''ref'', Lit ''unsafe'', Lit ''new'', Cls Space]),
      Star (Cls Space),
      Grp 2 (Alts [Lit ''class'', Lit ''struct'', Lit ''interface'', Lit ''enum'',
                   Lit ''record'']),
      Plus (Cls Space),
      Grp 3 (Seqs
        [Cls (Union [Rng CHR ''A'' CHR ''Z'', Rng CHR ''a'' CHR ''z'', Ch CHR ''_'']),
         Star (Cls (Union [Rng CHR ''A'' CHR ''Z'', Rng CHR ''a'' CHR ''z'',
                           Rng CHR ''0'' CHR ''9'', Ch CHR ''_'']))]),
      Opt (Seqs [Star (Cls Space), Lit ''<'', Plus (Cls (Neg (Ch CHR ''>''))), Lit ''>''])]"

lemma lb_typeRegex: "lb typeRegex = 6"
  by (simp add: typeRegex_def)

text \<open>The brace counter of \<^verbatim>\<open>_splitTypes\<close>, the same loop as in the partitioner.\<close>

function DecompilerService_splitTypes_braces :: "string \<Rightarrow> nat \<Rightarrow> int \<Rightarrow> nat" where
  "DecompilerService_splitTypes_braces code j depth =
     (if j < length code then
        (let ch = code ! j in
         if ch = CHR ''{'' then DecompilerService_splitTypes_braces code (j + 1) (depth + 1)
         else if ch = CHR ''}'' then
           (if depth - 1 = 0 then j + 1
            else DecompilerService_splitTypes_braces code (j + 1) (depth - 1))
         else DecompilerService_splitTypes_braces code (j + 1) depth)
      else j)"
  by pat_completeness auto
termination
  by (relation "measure (\<lambda>(code, j, depth). length code - j)") auto

declare DecompilerService_splitTypes_braces.simps [simp del]

lemma splitTypes_braces_ge: "j \<le> DecompilerService_splitTypes_braces code j depth"
proof (induction code j depth rule: DecompilerService_splitTypes_braces.induct)
  case (1 code j depth)
  show ?case
  proof (cases "j < length code")
    case True
    with 1 show ?thesis
      by (subst DecompilerService_splitTypes_braces.simps) (auto simp: Let_def intro: Suc_leD)
  next
    case False
    then show ?thesis by (subst DecompilerService_splitTypes_braces.simps) simp
  qed
qed

lemma splitTypes_braces_gt:
  "j < length code \<Longrightarrow> j < DecompilerService_splitTypes_braces code j depth"
  using splitTypes_braces_ge[of "j + 1" code]
  by (subst DecompilerService_splitTypes_braces.simps) (auto simp: Let_def intro: Suc_le_lessD)

lemma indexOf_Some: "indexOf s c from = Some i \<Longrightarrow> from \<le> i \<and> i < length s \<and> s ! i = c"
  unfolding indexOf_def by (auto simp: find_Some_iff)

lemma typeRegex_measure_brace:
  assumes "(Some m, y) = exec typeRegex False code li"
    "indexOf code CHR ''{'' (m_index m + n) = Some b"
  shows "((code, DecompilerService_splitTypes_braces code b 0, res'), (code, li, res))
         \<in> measure (\<lambda>(code, lastIndex, result). Suc (length code) - lastIndex)"
proof -
  from assms have "exec typeRegex False code li = (Some m, y)" by simp
  from exec_Some[OF this] have e: "li \<le> m_index m" "m_index m + 6 \<le> length code"
    by (simp_all add: lb_typeRegex)
  from indexOf_Some[OF assms(2)] have b: "m_index m \<le> b" "b < length code" by simp_all
  from splitTypes_braces_gt[OF b(2), of 0] e b
  have "Suc (length code) - DecompilerService_splitTypes_braces code b 0 < Suc (length code) - li"
    by arith
  then show ?thesis by simp
qed

lemma typeRegex_measure_semi:
  assumes "(Some m, y) = exec typeRegex False code li"
  shows "((code, (case indexOf code CHR '';'' (m_index m + n) of
                    None \<Rightarrow> length code | Some semi \<Rightarrow> semi + 1), res'), (code, li, res))
         \<in> measure (\<lambda>(code, lastIndex, result). Suc (length code) - lastIndex)"
proof -
  from assms have "exec typeRegex False code li = (Some m, y)" by simp
  from exec_Some[OF this] have e: "li \<le> m_index m" "m_index m + 6 \<le> length code"
    by (simp_all add: lb_typeRegex)
  have "li < (case indexOf code CHR '';'' (m_index m + n) of
                None \<Rightarrow> length code | Some semi \<Rightarrow> semi + 1)"
  proof (cases "indexOf code CHR '';'' (m_index m + n)")
    case None
    with e show ?thesis by simp
  next
    case (Some semi)
    from indexOf_Some[OF this] e Some show ?thesis by simp
  qed
  with e have "Suc (length code) - (case indexOf code CHR '';'' (m_index m + n) of
                None \<Rightarrow> length code | Some semi \<Rightarrow> semi + 1) < Suc (length code) - li"
    by arith
  then show ?thesis by simp
qed

text \<open>
  The loop \<^verbatim>\<open>while ((match = typeRegex.exec(code)) !== null)\<close> of \<^verbatim>\<open>_splitTypes\<close>. The
  second argument is \<^verbatim>\<open>typeRegex.lastIndex\<close>, which both branches set to \<^verbatim>\<open>nextIdx\<close>
  before the next round. \<open>start\<close> is
  \<^verbatim>\<open>match.index + (match[1] ? match[1].length : 0)\<close>; the branch without a body is taken
  when \<^verbatim>\<open>code.indexOf('{', start)\<close> is \<open>-1\<close>.
\<close>

function DecompilerService_splitTypes_loop :: "string \<Rightarrow> nat \<Rightarrow> strmap \<Rightarrow> strmap" where
  "DecompilerService_splitTypes_loop code lastIndex result =
     (case exec typeRegex False code lastIndex of
        (None, lastIndex') \<Rightarrow> result
      | (Some match, lastIndex') \<Rightarrow>
          (let start = m_index match
                 + (case group match 1 of None \<Rightarrow> 0 | Some g \<Rightarrow> if g = [] then 0 else length g);
               typeName = group_str match 3
           in case indexOf code CHR ''{'' start of
                None \<Rightarrow>
                  (let nextIdx = (case indexOf code CHR '';'' start of
                                    None \<Rightarrow> length code | Some semi \<Rightarrow> semi + 1);
                       chunk = trim (slice code start nextIdx)
                   in DecompilerService_splitTypes_loop code nextIdx
                        (map_set result typeName chunk))
              | Some braceStart \<Rightarrow>
                  (let j = DecompilerService_splitTypes_braces code braceStart 0;
                       nextIdx = j;
                       chunk = trim (slice code start nextIdx)
                   in DecompilerService_splitTypes_loop code nextIdx
                        (map_set result typeName chunk))))"
  by pat_completeness auto
termination
  apply (relation "measure (\<lambda>(code, lastIndex, result). Suc (length code) - lastIndex)")
    apply simp
   apply hypsubst
   apply (rule typeRegex_measure_semi; assumption)
  apply hypsubst
  apply (rule typeRegex_measure_brace; assumption)
  done

declare DecompilerService_splitTypes_loop.simps [simp del]

text \<open>\<^verbatim>\<open>_splitTypes(code)\<close>\<close>

definition DecompilerService_splitTypes :: "string \<Rightarrow> strmap" where
  "DecompilerService_splitTypes code = DecompilerService_splitTypes_loop code 0 []"

section \<open>Properties of the namespace partitioner\<close>

subsection \<open>The two partitioners agree\<close>

text \<open>
  The brace counter starts at an offset of the text and moves at least one character on, so
  \<open>nextIdx - 1\<close> in the slice of a block is never negative.
\<close>

lemma module_braces_ge: "j \<le> splitByNamespace_braces src j depth"
proof (induction src j depth rule: splitByNamespace_braces.induct)
  case (1 t j depth)
  show ?case
  proof (cases "j < length t")
    case True
    with 1 show ?thesis
      by (subst splitByNamespace_braces.simps) (auto simp: Let_def intro: Suc_leD)
  next
    case False
    then show ?thesis by (subst splitByNamespace_braces.simps) simp
  qed
qed

lemma module_braces_gt: "j < length src \<Longrightarrow> j < splitByNamespace_braces src j depth"
  using module_braces_ge[of "j + 1" src]
  by (subst splitByNamespace_braces.simps) (auto simp: Let_def intro: Suc_le_lessD)

lemma module_braces_after_indexOf:
  "indexOf src CHR ''{'' from = Some braceStart
   \<Longrightarrow> braceStart + 1 \<le> splitByNamespace_braces src braceStart 0"
  using module_braces_gt[of braceStart src 0] indexOf_Some[of src "CHR ''{''" "from" braceStart]
  by simp

lemma tokens_lastIndex: "snd (splitByNamespace_tokens src li toks) = 0"
proof (induction src li toks rule: splitByNamespace_tokens.induct)
  case (1 t lastIndex tokens)
  show ?case
  proof (cases "exec nsRegex False t lastIndex")
    case (Pair x y)
    show ?thesis
    proof (cases x)
      case None
      with Pair exec_None[of nsRegex False t lastIndex y] show ?thesis
        by (simp add: splitByNamespace_tokens.simps[of t lastIndex tokens])
    next
      case (Some m)
      with Pair have e: "(Some m, y) = exec nsRegex False t lastIndex" by simp
      from Some Pair 1[OF e refl] show ?thesis
        by (simp add: splitByNamespace_tokens.simps[of t lastIndex tokens])
    qed
  qed
qed

lemma service_tokens_eq:
  "DecompilerService_tokens src li toks = splitByNamespace_tokens src li toks"
proof (induction src li toks rule: splitByNamespace_tokens.induct)
  case (1 t lastIndex tokens)
  show ?case
  proof (cases "exec nsRegex False t lastIndex")
    case (Pair x y)
    show ?thesis
    proof (cases x)
      case None
      with Pair show ?thesis
        by (simp add: splitByNamespace_tokens.simps[of t lastIndex tokens]
            DecompilerService_tokens.simps[of t lastIndex tokens])
    next
      case (Some m)
      with Pair have e: "(Some m, y) = exec nsRegex False t lastIndex" by simp
      from Some Pair 1[OF e refl] show ?thesis
        by (simp add: splitByNamespace_tokens.simps[of t lastIndex tokens]
            DecompilerService_tokens.simps[of t lastIndex tokens])
    qed
  qed
qed

lemma service_braces_eq:
  "DecompilerService_braces src j depth = splitByNamespace_braces src j depth"
proof (induction src j depth rule: splitByNamespace_braces.induct)
  case (1 t j depth)
  then show ?case
    by (simp add: splitByNamespace_braces.simps[of t j depth]
        DecompilerService_braces.simps[of t j depth] Let_def)
qed

lemma service_append_eq: "DecompilerService_append = splitByNamespace_append"
  by (intro ext) (simp add: DecompilerService_append_def splitByNamespace_append_def)

lemma service_body_eq: "DecompilerService_body = splitByNamespace_body"
  by (intro ext)
    (simp add: DecompilerService_body_def splitByNamespace_body_def service_append_eq
      service_braces_eq Let_def split: prod.splits option.splits cong: if_cong)

lemma service_eq: "DecompilerService_splitByNamespace text = splitByNamespace text"
  by (simp add: DecompilerService_splitByNamespace_def splitByNamespace_def service_tokens_eq
      service_body_eq service_append_eq Let_def split: prod.splits cong: if_cong)

text \<open>
  Claim C9: for every input text \<^verbatim>\<open>DecompilerService._splitByNamespace\<close> and the exported
  \<^verbatim>\<open>splitByNamespace\<close> return the same mapping: the same keys in the same insertion
  order, with equal bodies.
\<close>

theorem C9_service_agrees_with_module:
  "DecompilerService_splitByNamespace text = splitByNamespace text"
  by (simp add: DecompilerService_splitByNamespace_def splitByNamespace_def service_tokens_eq
      service_body_eq service_append_eq Let_def split: prod.splits cong: if_cong)

subsection \<open>File-scoped namespaces\<close>

text \<open>
  Claim C1 (the code differs): the slice of a file-scoped token is meant to start just
  after the semicolon of the declaration (the source comments \<^verbatim>\<open>nsRegex.lastIndex\<close> with
  "after ';'"), but when the loop over the tokens runs, the tokenizer loop has ended on a
  failed \<^verbatim>\<open>exec\<close>, which leaves \<^verbatim>\<open>lastIndex\<close> at 0. Every file-scoped slice therefore
  starts at offset 0, and the text with the declarations of \<open>A\<close> and \<open>B\<close> gives bodies that
  hold the declarations themselves and, for \<open>B\<close>, the whole text.
\<close>

theorem C1_file_scoped_slice_starts_at_zero:
  "snd (splitByNamespace_tokens text 0 []) = 0
   \<and> snd (DecompilerService_tokens text 0 []) = 0
   \<and> splitByNamespace ''namespace A;\<newline>foo();\<newline>namespace B;\<newline>bar();''
       = [(''A'', ''namespace A;\<newline>foo();\<newline>''),
          (''B'', ''namespace A;\<newline>foo();\<newline>namespace B;\<newline>bar();\<newline>'')]
   \<and> DecompilerService_splitByNamespace
         ''namespace A;\<newline>foo();\<newline>namespace B;\<newline>bar();''
       = [(''A'', ''namespace A;\<newline>foo();\<newline>''),
          (''B'', ''namespace A;\<newline>foo();\<newline>namespace B;\<newline>bar();\<newline>'')]"
proof -
  have "splitByNamespace ''namespace A;\<newline>foo();\<newline>namespace B;\<newline>bar();''
       = [(''A'', ''namespace A;\<newline>foo();\<newline>''),
          (''B'', ''namespace A;\<newline>foo();\<newline>namespace B;\<newline>bar();\<newline>'')]"
    by code_simp
  then show ?thesis
    by (simp add: tokens_lastIndex service_tokens_eq service_eq)
qed

subsection \<open>Nested block namespaces\<close>

text \<open>
  Claim C2, as stated, fails: on \<^verbatim>\<open>namespace A { namespace A.B { Z } }\<close> the mapping does
  have an entry keyed \<open>A.B\<close>.
\<close>

theorem C2_counterexample:
  "map_get (splitByNamespace ''namespace A { namespace A.B { Z } }'') ''A.B'' \<noteq> None"
  by code_simp

text \<open>
  Claim C2, amended: on \<^verbatim>\<open>namespace A { namespace A.B { Z } }\<close> the whole nested region,
  with the nested declaration keyword, is attributed to \<open>A\<close>, whose body is
  \<^verbatim>\<open>namespace A.B { Z }\<close> and a newline; the loop runs over every token, so the nested
  token is processed as a block of its own too and the mapping has a separate entry
  \<open>A.B\<close> with body \<^verbatim>\<open>Z\<close> and a newline.
\<close>

theorem C2_nested_block_in_parent_and_own_entry:
  "map_get (splitByNamespace ''namespace A { namespace A.B { Z } }'') ''A''
     = Some ''namespace A.B { Z }\<newline>''
   \<and> map_get (splitByNamespace ''namespace A { namespace A.B { Z } }'') ''A.B''
     = Some ''Z\<newline>''
   \<and> map_get (DecompilerService_splitByNamespace ''namespace A { namespace A.B { Z } }'') ''A''
     = Some ''namespace A.B { Z }\<newline>''
   \<and> map_get (DecompilerService_splitByNamespace ''namespace A { namespace A.B { Z } }'') ''A.B''
     = Some ''Z\<newline>''"
proof -
  have "splitByNamespace ''namespace A { namespace A.B { Z } }''
        = [(''A'', ''namespace A.B { Z }\<newline>''), (''A.B'', ''Z\<newline>''),
           (''(global)'', ''}\<newline>'')]"
    by code_simp
  then show ?thesis by (simp add: service_eq map_get_def)
qed

subsection \<open>A block that is never closed\<close>

text \<open>
  Claim C3 (the code differs): when the brace counter reaches the end of the text with the
  block still open, the body should run to the end of the text. The slice ends at
  \<open>nextIdx - 1\<close>, which is right when \<open>nextIdx\<close> is just after a closing brace; at the
  end of an unclosed block it cuts the last character off. On
  \<^verbatim>\<open>namespace A { unterminated\<close> the body of \<open>A\<close> is \<^verbatim>\<open>unterminate\<close> and a newline.
\<close>

theorem C3_unclosed_block_loses_last_character:
  "splitByNamespace ''namespace A { unterminated'' = [(''A'', ''unterminate\<newline>'')]
   \<and> DecompilerService_splitByNamespace ''namespace A { unterminated''
       = [(''A'', ''unterminate\<newline>'')]"
proof -
  have "splitByNamespace ''namespace A { unterminated'' = [(''A'', ''unterminate\<newline>'')]"
    by code_simp
  then show ?thesis by (simp add: service_eq)
qed

subsection \<open>Texts without namespace tokens\<close>

text \<open>
  Claim C4, as stated, fails: the text \<^verbatim>\<open>" x "\<close> has no namespace token, and its body
  under \<^verbatim>\<open>(global)\<close> is not the trimmed text.
\<close>

theorem C4_counterexample:
  "fst (splitByNamespace_tokens '' x '' 0 []) = []
   \<and> splitByNamespace '' x '' \<noteq> [(''(global)'', trim '' x '')]"
  by code_simp

text \<open>
  Claim C4, amended: for every text for which the tokenizer produces no token, the
  mapping has exactly one entry, keyed \<^verbatim>\<open>(global)\<close>, whose body is the input text as it is
  (not trimmed).
\<close>

theorem C4_no_token_gives_global_with_whole_text:
  assumes "fst (splitByNamespace_tokens text 0 []) = []"
  shows "splitByNamespace text = [(''(global)'', text)]
         \<and> DecompilerService_splitByNamespace text = [(''(global)'', text)]"
proof (cases "splitByNamespace_tokens text 0 []")
  case (Pair tokens lastIndex)
  with assms have "tokens = []" by simp
  with Pair show ?thesis by (simp add: service_eq splitByNamespace_def)
qed

theorem C4_witness:
  "fst (splitByNamespace_tokens '' x '' 0 []) = []
   \<and> splitByNamespace '' x '' = [(''(global)'', '' x '')]
   \<and> DecompilerService_splitByNamespace '' x '' = [(''(global)'', '' x '')]"
proof -
  have h: "fst (splitByNamespace_tokens '' x '' 0 []) = []" by code_simp
  from h C4_no_token_gives_global_with_whole_text[OF h] show ?thesis by simp
qed

subsection \<open>Regions of one name are concatenated\<close>

text \<open>
  The regions of a text: the pairs of a namespace name and a slice that the partitioner
  passes to \<^verbatim>\<open>append\<close>, in the order of the calls. \<open>splitByNamespace_round\<close> lists the
  calls of one round of the loop, with the cursor after the round.
\<close>

definition splitByNamespace_round ::
  "string \<Rightarrow> token list \<Rightarrow> nat \<Rightarrow> nat \<Rightarrow> nat \<Rightarrow> (string \<times> string) list \<times> nat" where
  "splitByNamespace_round text tokens lastIndex cursor i =
     (let t = tokens ! i;
          before = (if i = 0 \<and> index t > cursor
                    then [(''(global)'', slice text cursor (index t))] else [])
      in if kind t = File then
           (let nextIdx = (if i + 1 < length tokens then index (tokens ! (i + 1)) else length text)
            in (before @ [(name t, slice text lastIndex nextIdx)], nextIdx))
         else
           (case indexOf text CHR ''{'' (index t) of
              None \<Rightarrow> (before, cursor)
            | Some braceStart \<Rightarrow>
                (let nextIdx = splitByNamespace_braces text braceStart 0
                 in (before @ [(name t, slice text (braceStart + 1) (nextIdx - 1))], nextIdx))))"

definition splitByNamespace_rounds ::
  "string \<Rightarrow> token list \<Rightarrow> nat \<Rightarrow> (string \<times> string) list \<times> nat \<Rightarrow> nat
   \<Rightarrow> (string \<times> string) list \<times> nat" where
  "splitByNamespace_rounds text tokens lastIndex st i =
     (let (new, cursor) = splitByNamespace_round text tokens lastIndex (snd st) i
      in (fst st @ new, cursor))"

definition splitByNamespace_regions :: "string \<Rightarrow> (string \<times> string) list" where
  "splitByNamespace_regions text =
     (let (tokens, lastIndex) = splitByNamespace_tokens text 0 []
      in if tokens = [] then []
         else
           (let (rs, cursor) =
                  foldl (splitByNamespace_rounds text tokens lastIndex) ([], 0) [0..<length tokens]
            in rs @ (if cursor < length text then [(''(global)'', slice_from text cursor)] else [])))"

text \<open>
  The regions attributed to a name: the slices passed to \<^verbatim>\<open>append\<close> for that name, in
  encounter order. An empty slice attributes nothing (\<^verbatim>\<open>if (!chunk) return\<close>) and is no
  region.
\<close>

definition regions_of :: "string \<Rightarrow> string \<Rightarrow> string list" where
  "regions_of text ns =
     map snd (filter (\<lambda>r. fst r = ns \<and> snd r \<noteq> []) (splitByNamespace_regions text))"

text \<open>The calls of \<^verbatim>\<open>append\<close> one after the other.\<close>

definition append_all :: "strmap \<Rightarrow> (string \<times> string) list \<Rightarrow> strmap" where
  "append_all = foldl (\<lambda>m r. splitByNamespace_append m (fst r) (snd r))"

lemma map_get_Nil: "map_get [] n = None"
  by (simp add: map_get_def)

lemma map_get_map_set: "map_get (map_set m k v) n = (if n = k then Some v else map_get m n)"
  by (induction m) (auto simp: map_get_def)

lemma map_get_append:
  "c \<noteq> [] \<Longrightarrow> map_get (splitByNamespace_append m k c) n =
     (if n = k then Some ((case map_get m k of None \<Rightarrow> [] | Some p \<Rightarrow> p) @ trim c @ ''\<newline>'')
      else map_get m n)"
  by (auto simp: splitByNamespace_append_def map_get_map_set split: option.splits)

lemma append_all_Nil: "append_all m [] = m"
  by (simp add: append_all_def)

lemma append_all_Cons:
  "append_all m (r # rs) = append_all (splitByNamespace_append m (fst r) (snd r)) rs"
  by (simp add: append_all_def)

lemma append_all_append: "append_all m (rs @ rs') = append_all (append_all m rs) rs'"
  by (simp add: append_all_def)

lemma map_get_append_all:
  "map_get (append_all m rs) n =
     (let cs = map snd (filter (\<lambda>r. fst r = n \<and> snd r \<noteq> []) rs)
      in if cs = [] then map_get m n
         else Some ((case map_get m n of None \<Rightarrow> [] | Some p \<Rightarrow> p)
                    @ concat (map (\<lambda>c. trim c @ ''\<newline>'') cs)))"
proof (induction rs arbitrary: m)
  case Nil
  show ?case by (simp add: append_all_Nil)
next
  case (Cons r rs)
  show ?case
  proof (cases "snd r = []")
    case True
    then have "splitByNamespace_append m (fst r) (snd r) = m"
      by (simp add: splitByNamespace_append_def)
    with True Cons[of m] show ?thesis by (simp add: append_all_Cons)
  next
    case False
    note get = map_get_append[OF False, of m "fst r" n]
    show ?thesis
      using False Cons[of "splitByNamespace_append m (fst r) (snd r)"] get
      by (simp add: append_all_Cons Let_def)
  qed
qed

lemma body_round:
  "splitByNamespace_body text tokens li (result, cursor) i =
     (append_all result (fst (splitByNamespace_round text tokens li cursor i)),
      snd (splitByNamespace_round text tokens li cursor i))"
  unfolding splitByNamespace_body_def splitByNamespace_round_def Let_def
  by (cases "i = 0"; cases "index (tokens ! i) > cursor"; cases "kind (tokens ! i) = File";
      cases "indexOf text CHR ''{'' (index (tokens ! i))")
    (simp_all add: append_all_def)

lemma loop_rounds:
  "foldl (splitByNamespace_body text tokens li) (append_all m rs, cursor) is =
     (append_all m (fst (foldl (splitByNamespace_rounds text tokens li) (rs, cursor) is)),
      snd (foldl (splitByNamespace_rounds text tokens li) (rs, cursor) is))"
proof (induction "is" arbitrary: rs cursor)
  case Nil
  show ?case by simp
next
  case (Cons i "is")
  obtain new c' where r: "splitByNamespace_round text tokens li cursor i = (new, c')"
    by (cases "splitByNamespace_round text tokens li cursor i")
  have "splitByNamespace_body text tokens li (append_all m rs, cursor) i
        = (append_all m (rs @ new), c')"
    by (simp add: body_round r append_all_append)
  moreover have "splitByNamespace_rounds text tokens li (rs, cursor) i = (rs @ new, c')"
    by (simp add: splitByNamespace_rounds_def r)
  ultimately show ?case using Cons[of "rs @ new" c'] by simp
qed

lemma splitByNamespace_regions:
  assumes "fst (splitByNamespace_tokens text 0 []) \<noteq> []"
  shows "splitByNamespace text = append_all [] (splitByNamespace_regions text)"
proof (cases "splitByNamespace_tokens text 0 []")
  case (Pair tokens li)
  with assms have ne: "tokens \<noteq> []" by simp
  obtain rs c where f: "foldl (splitByNamespace_rounds text tokens li) ([], 0) [0..<length tokens] = (rs, c)"
    by (cases "foldl (splitByNamespace_rounds text tokens li) ([], 0) [0..<length tokens]")
  have "foldl (splitByNamespace_body text tokens li) (append_all [] [], 0) [0..<length tokens]
        = (append_all [] rs, c)"
    by (simp only: loop_rounds f fst_conv snd_conv)
  then have l: "foldl (splitByNamespace_body text tokens li) ([], 0) [0..<length tokens]
        = (append_all [] rs, c)"
    by (simp add: append_all_Nil)
  show ?thesis
    using Pair ne f l
    by (simp add: splitByNamespace_def splitByNamespace_regions_def append_all_append
        append_all_Cons append_all_Nil)
qed

lemma regions_concat:
  assumes "regions_of text ns \<noteq> []"
  shows "map_get (splitByNamespace text) ns
         = Some (concat (map (\<lambda>c. trim c @ ''\<newline>'') (regions_of text ns)))"
proof -
  from assms have "splitByNamespace_regions text \<noteq> []"
    by (auto simp: regions_of_def)
  then have "fst (splitByNamespace_tokens text 0 []) \<noteq> []"
    by (auto simp: splitByNamespace_regions_def split: prod.splits if_splits)
  then have eq: "splitByNamespace text = append_all [] (splitByNamespace_regions text)"
    by (rule splitByNamespace_regions)
  have "map_get (append_all [] (splitByNamespace_regions text)) ns
        = Some (concat (map (\<lambda>c. trim c @ ''\<newline>'') (regions_of text ns)))"
    using map_get_append_all[of "[]" "splitByNamespace_regions text" ns] assms
    by (simp add: regions_of_def Let_def map_get_Nil)
  with eq show ?thesis by simp
qed

text \<open>
  Claim C5: for every text and every namespace name to which the partitioner attributes
  two or more regions, the final entry of that name is the concatenation, in encounter
  order, of the trimmed regions, each followed by a newline: no region is overwritten or
  dropped by a later one of the same name.
\<close>

theorem C5_regions_concatenated_in_order:
  assumes "2 \<le> length (regions_of text ns)"
  shows "map_get (splitByNamespace text) ns
           = Some (concat (map (\<lambda>c. trim c @ ''\<newline>'') (regions_of text ns)))
         \<and> map_get (DecompilerService_splitByNamespace text) ns
           = Some (concat (map (\<lambda>c. trim c @ ''\<newline>'') (regions_of text ns)))"
proof -
  from assms have "regions_of text ns \<noteq> []" by auto
  from regions_concat[OF this] show ?thesis by (simp add: service_eq)
qed

theorem C5_witness:
  "2 \<le> length (regions_of ''using X; namespace A { x } namespace A { y } tail'' ''A'')
   \<and> map_get (splitByNamespace ''using X; namespace A { x } namespace A { y } tail'') ''A''
       = Some ''x\<newline>y\<newline>''
   \<and> map_get (DecompilerService_splitByNamespace
                ''using X; namespace A { x } namespace A { y } tail'') ''A''
       = Some ''x\<newline>y\<newline>''"
proof -
  have r: "regions_of ''using X; namespace A { x } namespace A { y } tail'' ''A''
           = ['' x '', '' y '']"
    by code_simp
  then have h: "2 \<le> length (regions_of ''using X; namespace A { x } namespace A { y } tail'' ''A'')"
    by simp
  have t: "concat (map (\<lambda>c. trim c @ ''\<newline>'') ['' x '', '' y '']) = ''x\<newline>y\<newline>''"
    by code_simp
  from h C5_regions_concatenated_in_order[OF h] show ?thesis by (simp only: r t)
qed

subsection \<open>Empty slices\<close>

text \<open>
  Claim C10: the helper \<^verbatim>\<open>append\<close> returns the mapping as it is when the slice is the
  empty string; so \<^verbatim>\<open>namespace A {}\<close>, whose block body is empty, yields a mapping with
  no entry for \<open>A\<close>: the mapping returned for that input is empty.
\<close>

theorem C10_empty_slice_adds_nothing:
  "splitByNamespace_append result ns [] = result
   \<and> DecompilerService_append result ns [] = result
   \<and> splitByNamespace ''namespace A {}'' = []
   \<and> DecompilerService_splitByNamespace ''namespace A {}'' = []"
proof -
  have "splitByNamespace ''namespace A {}'' = []" by code_simp
  then show ?thesis
    by (simp add: service_eq splitByNamespace_append_def DecompilerService_append_def)
qed

section \<open>Ends of the parts of a pattern\<close>

lemma ends_Seqs_Nil: "ends (Seqs []) ml t s = [s]"
  by simp

lemma ends_Seqs_Cons:
  "s' \<in> set (ends (Seqs (r # rs)) ml t s)
   \<longleftrightarrow> (\<exists>s1 \<in> set (ends r ml t s). s' \<in> set (ends (Seqs rs) ml t s1))"
  by simp

lemma ends_Lit_mem:
  "s' \<in> set (ends (Lit w) ml t s) \<Longrightarrow> take (length w) (drop (fst s) t) = w"
  by (simp split: if_splits)

lemma ends_Grp_Alts_mem:
  "s' \<in> set (ends (Grp n (Alts rs)) ml t s) \<Longrightarrow> \<exists>r \<in> set rs. \<exists>s''. s'' \<in> set (ends r ml t s)"
  by auto

lemma first_match_None:
  "(\<And>i. i \<in> set is \<Longrightarrow> ends r ml t (i, []) = []) \<Longrightarrow> first_match r ml t is = None"
  by (induction "is") (simp_all add: match_at_def)

section \<open>Properties of the using lines\<close>

lemma slice_split: "a \<le> b \<Longrightarrow> b \<le> c \<Longrightarrow> slice t a c = slice t a b @ slice t b c"
proof -
  assume ab: "a \<le> b" and bc: "b \<le> c"
  then have c: "c - a = (b - a) + (c - b)" by simp
  have "take (c - a) (drop a t) = take (b - a) (drop a t) @ take (c - b) (drop (b - a) (drop a t))"
    unfolding c by (rule take_add)
  moreover from ab have "drop (b - a) (drop a t) = drop b t" by simp
  ultimately show ?thesis by (simp add: slice_def)
qed

lemma slice_all:
  assumes "\<And>j. a \<le> j \<Longrightarrow> j < b \<Longrightarrow> P (t ! j)" "b \<le> length t"
  shows "list_all P (slice t a b)"
proof -
  have "P x" if "x \<in> set (take (b - a) (drop a t))" for x
  proof -
    from that obtain k where k: "k < length (take (b - a) (drop a t))"
      "x = take (b - a) (drop a t) ! k"
      by (auto simp: in_set_conv_nth)
    from k(1) have kb: "k < b - a" "a + k < length t" by auto
    with k(2) have "x = t ! (a + k)" by simp
    with assms(1)[of "a + k"] kb show ?thesis by simp
  qed
  then show ?thesis by (simp add: slice_def list_all_iff)
qed

lemma slice_Lit: "take (length w) (drop i t) = w \<Longrightarrow> slice t i (i + length w) = w"
  by (simp add: slice_def)

lemma slice_Nil_iff: "b \<le> length t \<Longrightarrow> slice t a b = [] \<longleftrightarrow> b \<le> a"
  by (auto simp: slice_def)

text \<open>A run of characters of one class.\<close>

definition run :: "cls \<Rightarrow> string \<Rightarrow> mstate \<Rightarrow> mstate \<Rightarrow> bool" where
  "run k t s s' = (fst s \<le> fst s' \<and> fst s' \<le> length t \<and> snd s' = snd s
                   \<and> (\<forall>j. fst s \<le> j \<and> j < fst s' \<longrightarrow> in_cls k (t ! j)))"

lemma star_ends_Suc_mem:
  "s' \<in> set (star_ends (Suc n) f s)
   \<longleftrightarrow> s' = s \<or> (\<exists>s1 \<in> set (f s). fst s < fst s1 \<and> s' \<in> set (star_ends n f s1))"
  by auto

lemma star_Cls_run:
  "fst s \<le> length t \<Longrightarrow> s' \<in> set (star_ends n (ends (Cls k) ml t) s) \<Longrightarrow> run k t s s'"
proof (induction n arbitrary: s)
  case 0
  then show ?case by (auto simp: run_def)
next
  case (Suc n)
  from Suc.prems(2)[unfolded star_ends_Suc_mem] consider "s' = s"
    | s1 where "s1 \<in> set (ends (Cls k) ml t s)" "s' \<in> set (star_ends n (ends (Cls k) ml t) s1)"
    by blast
  then show ?case
  proof cases
    case 1
    with Suc.prems(1) show ?thesis by (auto simp: run_def)
  next
    case 2
    from 2(1) have s1: "fst s < length t" "in_cls k (t ! fst s)" "s1 = (Suc (fst s), snd s)"
      by (auto split: if_splits)
    then have "fst s1 \<le> length t" by simp
    from Suc.IH[OF this 2(2)] have r: "run k t s1 s'" .
    have "in_cls k (t ! j)" if "fst s \<le> j" "j < fst s'" for j
    proof (cases "j = fst s")
      case True
      with s1(2) show ?thesis by simp
    next
      case False
      with that s1(3) have "fst s1 \<le> j" by simp
      with r that(2) show ?thesis by (simp add: run_def)
    qed
    with r s1(3) show ?thesis by (simp add: run_def)
  qed
qed

lemma ends_Star_Cls:
  "fst s \<le> length t \<Longrightarrow> s' \<in> set (ends (Star (Cls k)) ml t s) \<Longrightarrow> run k t s s'"
  using star_Cls_run[of s t s' "length t - fst s" k ml] by simp

lemma ends_Plus_Cls:
  assumes "fst s \<le> length t" "s' \<in> set (ends (Plus (Cls k)) ml t s)"
  shows "run k t s s' \<and> fst s < fst s'"
proof -
  from assms(2) have "\<exists>s1 \<in> set (ends (Cls k) ml t s).
      s' \<in> set (star_ends (length t - fst s1) (ends (Cls k) ml t) s1)"
    by (simp only: ends.simps set_concat set_map) blast
  then obtain s1 where s1: "s1 \<in> set (ends (Cls k) ml t s)"
    "s' \<in> set (star_ends (length t - fst s1) (ends (Cls k) ml t) s1)"
    by blast
  from s1(1) have c: "fst s < length t" "in_cls k (t ! fst s)" "s1 = (Suc (fst s), snd s)"
    by (auto split: if_splits)
  then have "fst s1 \<le> length t" by simp
  from star_Cls_run[OF this s1(2)] have r: "run k t s1 s'" .
  have "in_cls k (t ! j)" if "fst s \<le> j" "j < fst s'" for j
  proof (cases "j = fst s")
    case True
    with c(2) show ?thesis by simp
  next
    case False
    with that c(3) have "fst s1 \<le> j" by simp
    with r that(2) show ?thesis by (simp add: run_def)
  qed
  with r c(3) show ?thesis by (simp add: run_def)
qed

text \<open>What a match of the pattern for the using lines looks like.\<close>

definition using_match :: "string \<Rightarrow> nat \<Rightarrow> nat \<Rightarrow> bool" where
  "using_match h i j =
     ((i = 0 \<or> isLineTerminator (h ! (i - 1)))
      \<and> (j = length h \<or> (j < length h \<and> isLineTerminator (h ! j)))
      \<and> (\<exists>ws body ws'. slice h i j = ''using'' @ ws @ body @ '';'' @ ws'
            \<and> ws \<noteq> [] \<and> list_all isSpace ws
            \<and> body \<noteq> [] \<and> CHR '';'' \<notin> set body
            \<and> list_all isSpace ws'))"

lemma usingRegex_shape:
  assumes m: "s' \<in> set (ends usingRegex True h (i, []))" and i: "i \<le> length h"
  shows "using_match h i (fst s')"
proof -
  from m obtain s1 s2 s3 s4 s5 s6 where
    1: "s1 \<in> set (ends Caret True h (i, []))" and
    2: "s2 \<in> set (ends (Lit ''using'') True h s1)" and
    3: "s3 \<in> set (ends (Plus (Cls Space)) True h s2)" and
    4: "s4 \<in> set (ends (Plus (Cls (Neg (Ch CHR '';'')))) True h s3)" and
    5: "s5 \<in> set (ends (Lit '';'') True h s4)" and
    6: "s6 \<in> set (ends (Star (Cls Space)) True h s5)" and
    7: "s' \<in> set (ends Dollar True h s6)"
    unfolding usingRegex_def ends_Seqs_Cons ends_Seqs_Nil by auto
  from 1 have p1: "fst s1 = i" "i = 0 \<or> isLineTerminator (h ! (i - 1))"
    by (auto split: if_splits)
  from ends_Lit_mem[OF 2] p1(1) have l2: "take (length ''using'') (drop i h) = ''using''" by simp
  from 2 p1(1) have p2: "fst s2 = i + length ''using''" by (auto split: if_splits)
  from ends_bounds[OF _ 2] i p1(1) have b2: "fst s2 \<le> length h" by simp
  from ends_Plus_Cls[OF b2 3] have r3: "run Space h s2 s3" "fst s2 < fst s3" by simp_all
  then have b3: "fst s3 \<le> length h" by (simp add: run_def)
  from ends_Plus_Cls[OF b3 4] have r4: "run (Neg (Ch CHR '';'')) h s3 s4" "fst s3 < fst s4"
    by simp_all
  then have b4: "fst s4 \<le> length h" by (simp add: run_def)
  from ends_Lit_mem[OF 5] have l5: "take (length '';'') (drop (fst s4) h) = '';''" .
  from 5 have p5: "fst s5 = fst s4 + length '';''" by (auto split: if_splits)
  from ends_bounds[OF b4 5] have b5: "fst s5 \<le> length h" by simp
  from ends_Star_Cls[OF b5 6] have r6: "run Space h s5 s6" .
  then have b6: "fst s5 \<le> fst s6" "fst s6 \<le> length h" by (simp_all add: run_def)
  from 7 have p7: "s' = s6" "fst s6 = length h \<or> (fst s6 < length h \<and> isLineTerminator (h ! fst s6))"
    by (auto split: if_splits)
  define ws where "ws = slice h (fst s2) (fst s3)"
  define body where "body = slice h (fst s3) (fst s4)"
  define ws' where "ws' = slice h (fst s5) (fst s6)"
  have "slice h i (fst s6) = slice h i (fst s2) @ slice h (fst s2) (fst s6)"
    using p2 r3(2) r4(2) p5 b6(1) by (intro slice_split) simp_all
  also have "slice h (fst s2) (fst s6) = ws @ slice h (fst s3) (fst s6)"
    unfolding ws_def using r3(2) r4(2) p5 b6(1) by (intro slice_split) simp_all
  also have "slice h (fst s3) (fst s6) = body @ slice h (fst s4) (fst s6)"
    unfolding body_def using r4(2) p5 b6(1) by (intro slice_split) simp_all
  also have "slice h (fst s4) (fst s6) = slice h (fst s4) (fst s5) @ ws'"
    unfolding ws'_def using p5 b6(1) by (intro slice_split) simp_all
  also have "slice h (fst s4) (fst s5) = '';''"
    unfolding p5 using l5 by (rule slice_Lit)
  also have "slice h i (fst s2) = ''using''"
    unfolding p2 using l2 by (rule slice_Lit)
  finally have cat: "slice h i (fst s6) = ''using'' @ ws @ body @ '';'' @ ws'" by simp
  have "list_all isSpace ws"
    unfolding ws_def using r3(1) b3 by (intro slice_all) (auto simp: run_def)
  moreover have "ws \<noteq> []"
    unfolding ws_def using r3(2) b3 by (simp add: slice_Nil_iff)
  moreover have "list_all (\<lambda>c. c \<noteq> CHR '';'') body"
    unfolding body_def using r4(1) b4 by (intro slice_all) (auto simp: run_def)
  then have "CHR '';'' \<notin> set body" by (auto simp: list_all_iff)
  moreover have "body \<noteq> []"
    unfolding body_def using r4(2) b4 by (simp add: slice_Nil_iff)
  moreover have "list_all isSpace ws'"
    unfolding ws'_def using r6 b6(2) by (intro slice_all) (auto simp: run_def)
  ultimately show ?thesis
    unfolding using_match_def using p1(2) p7 cat by blast
qed

lemma match_all_using:
  "l \<in> set (match_all usingRegex True h li)
   \<Longrightarrow> \<exists>i j. li \<le> i \<and> l = slice h i j \<and> using_match h i j"
proof (induction usingRegex True h li rule: match_all.induct)
  case (1 t lastIndex)
  show ?case
  proof (cases "exec usingRegex True t lastIndex")
    case (Pair x y)
    show ?thesis
    proof (cases x)
      case None
      with Pair "1.prems" show ?thesis
        by (simp add: match_all.simps[of usingRegex True t lastIndex])
    next
      case (Some m)
      with Pair have e: "(Some m, y) = exec usingRegex True t lastIndex"
        and e': "exec usingRegex True t lastIndex = (Some m, y)" by simp_all
      from exec_Some[OF e'] have b: "lastIndex \<le> m_index m" "m_index m \<le> m_finish m"
        "m_finish m \<le> length t" "y = m_finish m" by simp_all
      from e' have "first_match usingRegex True t [lastIndex..<Suc (length t)] = Some m"
        by (auto simp del: upt_Suc simp: exec_def split: option.splits)
      from first_match_Some[OF this] have ma: "match_at usingRegex True t (m_index m) = Some m"
        by simp
      then obtain s' ss where s'0: "ends usingRegex True t (m_index m, []) = s' # ss"
        "m = \<lparr>m_index = m_index m, m_finish = fst s', m_groups = snd s'\<rparr>"
        by (auto simp: match_at_def split: list.splits)
      from s'0(2) have "m_finish m = m_finish \<lparr>m_index = m_index m, m_finish = fst s', m_groups = snd s'\<rparr>"
        by simp
      with s'0(1) have s': "ends usingRegex True t (m_index m, []) = s' # ss" "m_finish m = fst s'"
        by simp_all
      then have "s' \<in> set (ends usingRegex True t (m_index m, []))" by simp
      from usingRegex_shape[OF this] b s'(2)
      have sh: "using_match t (m_index m) (m_finish m)" by simp
      from "1.prems" Pair Some consider "l = slice t (m_index m) (m_finish m)"
        | "l \<in> set (match_all usingRegex True t (if m_finish m = m_index m then y + 1 else y))"
        by (auto simp: match_all.simps[of usingRegex True t lastIndex])
      then show ?thesis
      proof cases
        case 1
        with sh b(1) show ?thesis by blast
      next
        case 2
        from "1.hyps"[OF e refl 2] obtain i j where
          "(if m_finish m = m_index m then y + 1 else y) \<le> i" "l = slice t i j" "using_match t i j"
          by blast
        moreover from this(1) b have "lastIndex \<le> i" by (simp split: if_splits)
        ultimately show ?thesis by blast
      qed
    qed
  qed
qed

text \<open>The keyword stands at offset \<open>i\<close> as a word of its own.\<close>

definition namespace_at :: "string \<Rightarrow> nat \<Rightarrow> bool" where
  "namespace_at t i =
     (take (length ''namespace'') (drop i t) = ''namespace''
      \<and> \<not> (0 < i \<and> isWord (t ! (i - 1)))
      \<and> \<not> (i + length ''namespace'' < length t \<and> isWord (t ! (i + length ''namespace''))))"

lemma take_drop_nth:
  assumes "take (length w) (drop i t) = w" "k < length w"
  shows "i + k < length t \<and> t ! (i + k) = w ! k"
proof -
  have "length (take (length w) (drop i t)) \<le> length t - i" by simp
  with assms have l: "i + k < length t" by simp
  have "take (length w) (drop i t) ! k = t ! (i + k)"
    using assms(2) l by simp
  with assms(1) l show ?thesis by simp
qed

lemma ends_Seqs3:
  "ends (Seqs [a, b, c]) ml t s
   = concat (map (\<lambda>s1. concat (map (ends c ml t) (ends b ml t s1))) (ends a ml t s))"
proof -
  have "seq_ends [] = (\<lambda>s :: mstate. [s])"
    by (rule ext) simp
  then have "seq_ends [ends c ml t] = ends c ml t"
    by (intro ext) simp
  then have "seq_ends [ends b ml t, ends c ml t]
             = (\<lambda>s1. concat (map (ends c ml t) (ends b ml t s1)))"
    by (intro ext) simp
  then show ?thesis by simp
qed

lemma word_ends:
  assumes w: "w \<noteq> []" "isWord (hd w)" "isWord (last w)"
  shows "ends (Seqs [WordB, Lit w, WordB]) ml t (i, []) = []
         \<longleftrightarrow> \<not> (take (length w) (drop i t) = w
                \<and> \<not> (0 < i \<and> isWord (t ! (i - 1)))
                \<and> \<not> (i + length w < length t \<and> isWord (t ! (i + length w))))"
proof (cases "take (length w) (drop i t) = w")
  case False
  then show ?thesis by auto
next
  case True
  define n where "n = length w"
  from w(1) have n: "0 < n" by (simp add: n_def)
  from take_drop_nth[OF True, of 0] w(1) have n0: "i < length t" "t ! i = hd w"
    by (simp_all add: hd_conv_nth)
  from take_drop_nth[OF True, of "n - 1"] n have n8: "i + (n - 1) < length t"
    "t ! (i + (n - 1)) = last w"
    using w(1) by (simp_all add: n_def last_conv_nth)
  from n n8(1) have le: "i + n \<le> length t" by simp
  from n have p: "i + n - 1 = i + (n - 1)" by simp
  have first: "ends WordB ml t (i, []) = (if 0 < i \<and> isWord (t ! (i - 1)) then [] else [(i, [])])"
    using n0 w(2) by auto
  have mid: "ends (Lit w) ml t (i, []) = [(i + n, [])]"
    using True by (simp add: n_def)
  have final: "ends WordB ml t (i + n, [])
        = (if i + n < length t \<and> isWord (t ! (i + n)) then [] else [(i + n, [])])"
    using n le n8(2) w(3) p by auto
  have "ends (Seqs [WordB, Lit w, WordB]) ml t (i, [])
        = (if 0 < i \<and> isWord (t ! (i - 1)) then []
           else if i + n < length t \<and> isWord (t ! (i + n)) then [] else [(i + n, [])])"
  proof (cases "0 < i \<and> isWord (t ! (i - 1))")
    case True
    with first have "ends WordB ml t (i, []) = []" by (simp del: ends.simps)
    with True show ?thesis by (simp only: ends_Seqs3 list.map concat.simps simp_thms if_True)
  next
    case False
    with first have f: "ends WordB ml t (i, []) = [(i, [])]" by (simp del: ends.simps)
    have "ends (Seqs [WordB, Lit w, WordB]) ml t (i, []) = ends WordB ml t (i + n, [])"
      by (simp only: ends_Seqs3 f mid list.map concat.simps append_Nil2)
    with final False show ?thesis by (simp only: if_False)
  qed
  with True show ?thesis by (simp del: ends.simps add: n_def)
qed

lemma namespaceWord_ends:
  "ends namespaceWord ml t (i, []) = [] \<longleftrightarrow> \<not> namespace_at t i"
  unfolding namespaceWord_def namespace_at_def
  by (rule word_ends) (simp_all add: isWord_def inRange_def)

lemma match_at_None_iff: "match_at r ml t i = None \<longleftrightarrow> ends r ml t (i, []) = []"
  by (simp add: match_at_def split: list.splits)

lemma first_match_before:
  "first_match r ml t is = Some m
   \<Longrightarrow> \<exists>xs ys. is = xs @ m_index m # ys \<and> (\<forall>j \<in> set xs. match_at r ml t j = None)"
proof (induction "is")
  case Nil
  then show ?case by simp
next
  case (Cons i "is")
  show ?case
  proof (cases "match_at r ml t i")
    case None
    with Cons.prems have "first_match r ml t is = Some m" by simp
    from Cons.IH[OF this] obtain xs ys where
      "is = xs @ m_index m # ys" "\<forall>j \<in> set xs. match_at r ml t j = None" by blast
    with None have "i # is = (i # xs) @ m_index m # ys \<and> (\<forall>j \<in> set (i # xs). match_at r ml t j = None)"
      by simp
    then show ?thesis by blast
  next
    case (Some m')
    with Cons.prems have "m' = m" by simp
    with Some have "m_index m = i" by (auto simp: match_at_def split: list.splits)
    then have "i # is = [] @ m_index m # is \<and> (\<forall>j \<in> set []. match_at r ml t j = None)" by simp
    then show ?thesis by blast
  qed
qed

lemma first_match_upt_before:
  assumes "first_match r ml t [a..<b] = Some m" "a \<le> j" "j < m_index m"
  shows "match_at r ml t j = None"
proof -
  from first_match_before[OF assms(1)] obtain xs ys where
    s: "[a..<b] = xs @ m_index m # ys" and n: "\<forall>j \<in> set xs. match_at r ml t j = None" by blast
  have "sorted (xs @ m_index m # ys)" "distinct (xs @ m_index m # ys)"
    unfolding s[symmetric] by simp_all
  then have ys: "\<forall>y \<in> set ys. m_index m \<le> y" by (simp add: sorted_append)
  have "m_index m \<in> set [a..<b]" unfolding s by simp
  with assms(2,3) have "j \<in> set [a..<b]" by simp
  then have "j \<in> set xs \<or> j = m_index m \<or> j \<in> set ys" unfolding s by auto
  with assms(3) ys have "j \<in> set xs" by auto
  with n show ?thesis by simp
qed

lemma first_match_None_all:
  "first_match r ml t is = None \<Longrightarrow> j \<in> set is \<Longrightarrow> match_at r ml t j = None"
  by (induction "is") (auto split: option.splits)

lemma search_namespaceWord_Some:
  assumes "search namespaceWord False t = Some i"
  shows "namespace_at t i \<and> (\<forall>j < i. \<not> namespace_at t j)"
proof -
  from assms obtain m where m: "first_match namespaceWord False t [0..<Suc (length t)] = Some m"
    "m_index m = i"
    by (auto simp del: upt_Suc simp: search_def)
  from first_match_Some[OF m(1)] m(2) have "match_at namespaceWord False t i = Some m" by simp
  then have "ends namespaceWord False t (i, []) \<noteq> []"
    by (auto simp: match_at_def)
  then have 1: "namespace_at t i" using namespaceWord_ends by blast
  have "\<not> namespace_at t j" if "j < i" for j
  proof -
    from first_match_upt_before[OF m(1), of j] that m(2)
    have "match_at namespaceWord False t j = None" by simp
    then show ?thesis by (simp add: match_at_None_iff namespaceWord_ends)
  qed
  with 1 show ?thesis by simp
qed

lemma search_namespaceWord_None:
  assumes "search namespaceWord False t = None"
  shows "\<not> namespace_at t j"
proof
  assume a: "namespace_at t j"
  then have "take (length ''namespace'') (drop j t) = ''namespace''" by (simp add: namespace_at_def)
  from take_drop_nth[OF this, of 0] have "j \<in> set [0..<Suc (length t)]" by simp
  moreover from assms have "first_match namespaceWord False t [0..<Suc (length t)] = None"
    by (simp del: upt_Suc add: search_def)
  ultimately have "match_at namespaceWord False t j = None" by (rule first_match_None_all[rotated])
  with a show False by (simp add: match_at_None_iff namespaceWord_ends)
qed

text \<open>
  Claim C6, as stated, fails: on the text of the example the result keeps the newline
  that ends the header region.
\<close>

theorem C6_counterexample:
  "decompileAndSplit_usingLines ''using System;\<newline>using System.IO;\<newline>namespace X { }''
   \<noteq> ''using System;\<newline>using System.IO;''"
  by code_simp

text \<open>
  Claim C6, amended. The header region ends at the first offset where the keyword
  \<^verbatim>\<open>namespace\<close> stands as a word of its own; if there is none, or it is offset 0, the
  result is empty. Otherwise the result is the matches of the pattern in the region
  before that offset, from left to right, joined with newlines, and every match
  starts at a line start with the keyword \<^verbatim>\<open>using\<close> (no white space before it), goes on
  with one or more white-space characters, one or more characters other than a
  semicolon, a semicolon and white space, and ends at a line end or at the end of the
  region; the white space after the semicolon belongs to the match. On
  \<^verbatim>\<open>"using System;\nusing System.IO;\nnamespace X { }"\<close> the result is
  \<^verbatim>\<open>"using System;\nusing System.IO;\n"\<close>, and a line with white space before
  \<^verbatim>\<open>using\<close> is not collected.
\<close>

theorem C6_using_lines_before_first_namespace:
  "(search namespaceWord False text = None
      \<longrightarrow> (\<forall>j. \<not> namespace_at text j) \<and> decompileAndSplit_usingLines text = [])
   \<and> (search namespaceWord False text = Some 0
      \<longrightarrow> namespace_at text 0 \<and> decompileAndSplit_usingLines text = [])
   \<and> (\<forall>i. 0 < i \<and> search namespaceWord False text = Some i
      \<longrightarrow> namespace_at text i \<and> (\<forall>j < i. \<not> namespace_at text j)
          \<and> decompileAndSplit_usingLines text
              = join ''\<newline>'' (match_all usingRegex True (slice text 0 i) 0)
          \<and> (\<forall>l \<in> set (match_all usingRegex True (slice text 0 i) 0).
                \<exists>a b. l = slice (slice text 0 i) a b \<and> using_match (slice text 0 i) a b))
   \<and> decompileAndSplit_usingLines
         ''using System;\<newline>using System.IO;\<newline>namespace X { }''
       = ''using System;\<newline>using System.IO;\<newline>''
   \<and> decompileAndSplit_usingLines ''  using System;\<newline>namespace X { }'' = []"
proof -
  have 1: "(\<forall>j. \<not> namespace_at text j) \<and> decompileAndSplit_usingLines text = []"
    if "search namespaceWord False text = None"
  proof -
    have "match_all usingRegex True [] 0 = []" by code_simp
    with that search_namespaceWord_None[OF that] show ?thesis
      by (simp add: decompileAndSplit_usingLines_def)
  qed
  have 2: "namespace_at text 0 \<and> decompileAndSplit_usingLines text = []"
    if "search namespaceWord False text = Some 0"
  proof -
    have "match_all usingRegex True [] 0 = []" by code_simp
    with that search_namespaceWord_Some[OF that] show ?thesis
      by (simp add: decompileAndSplit_usingLines_def)
  qed
  have 3: "namespace_at text i \<and> (\<forall>j < i. \<not> namespace_at text j)
          \<and> decompileAndSplit_usingLines text
              = join ''\<newline>'' (match_all usingRegex True (slice text 0 i) 0)
          \<and> (\<forall>l \<in> set (match_all usingRegex True (slice text 0 i) 0).
                \<exists>a b. l = slice (slice text 0 i) a b \<and> using_match (slice text 0 i) a b)"
    if "0 < i" "search namespaceWord False text = Some i" for i
  proof -
    have "\<exists>a b. l = slice (slice text 0 i) a b \<and> using_match (slice text 0 i) a b"
      if "l \<in> set (match_all usingRegex True (slice text 0 i) 0)" for l
      using match_all_using[OF that] by blast
    with that search_namespaceWord_Some[OF that(2)] show ?thesis
      by (simp add: decompileAndSplit_usingLines_def)
  qed
  have 4: "decompileAndSplit_usingLines
         ''using System;\<newline>using System.IO;\<newline>namespace X { }''
       = ''using System;\<newline>using System.IO;\<newline>''"
    by code_simp
  have 5: "decompileAndSplit_usingLines ''  using System;\<newline>namespace X { }'' = []"
    by code_simp
  from 1 2 3 4 5 show ?thesis by blast
qed

theorem C6_witness:
  "search namespaceWord False ''int x;'' = None
   \<and> decompileAndSplit_usingLines ''int x;'' = []
   \<and> search namespaceWord False ''namespace X { }'' = Some 0
   \<and> decompileAndSplit_usingLines ''namespace X { }'' = []
   \<and> search namespaceWord False ''using A;\<newline>namespace X;'' = Some 9
   \<and> ''using A;\<newline>'' \<in> set (match_all usingRegex True (slice ''using A;\<newline>namespace X;'' 0 9) 0)
   \<and> (\<exists>a b. ''using A;\<newline>'' = slice (slice ''using A;\<newline>namespace X;'' 0 9) a b
          \<and> using_match (slice ''using A;\<newline>namespace X;'' 0 9) a b)
   \<and> decompileAndSplit_usingLines ''using A;\<newline>namespace X;'' = ''using A;\<newline>''"
proof -
  have a: "search namespaceWord False ''int x;'' = None" by code_simp
  have b: "search namespaceWord False ''namespace X { }'' = Some 0" by code_simp
  have c: "search namespaceWord False ''using A;\<newline>namespace X;'' = Some 9" by code_simp
  have d: "match_all usingRegex True (slice ''using A;\<newline>namespace X;'' 0 9) 0
           = [''using A;\<newline>'']" by code_simp
  have e: "(0::nat) < 9" by simp
  note t1 = C6_using_lines_before_first_namespace[of "''int x;''"]
  note t2 = C6_using_lines_before_first_namespace[of "''namespace X { }''"]
  note t3 = C6_using_lines_before_first_namespace[of "''using A;\<newline>namespace X;''"]
  from t1 a have r1: "decompileAndSplit_usingLines ''int x;'' = []" by blast
  from t2 b have r2: "decompileAndSplit_usingLines ''namespace X { }'' = []" by blast
  from t3 c e have r3: "decompileAndSplit_usingLines ''using A;\<newline>namespace X;''
              = join ''\<newline>'' (match_all usingRegex True (slice ''using A;\<newline>namespace X;'' 0 9) 0)"
    and r4: "\<forall>l \<in> set (match_all usingRegex True (slice ''using A;\<newline>namespace X;'' 0 9) 0).
                \<exists>a b. l = slice (slice ''using A;\<newline>namespace X;'' 0 9) a b
                  \<and> using_match (slice ''using A;\<newline>namespace X;'' 0 9) a b"
    by blast+
  from r3 d have r3': "decompileAndSplit_usingLines ''using A;\<newline>namespace X;'' = ''using A;\<newline>''"
    by simp
  from d have m: "''using A;\<newline>'' \<in> set (match_all usingRegex True (slice ''using A;\<newline>namespace X;'' 0 9) 0)"
    by simp
  from r4 m have r4': "\<exists>a b. ''using A;\<newline>'' = slice (slice ''using A;\<newline>namespace X;'' 0 9) a b
          \<and> using_match (slice ''using A;\<newline>namespace X;'' 0 9) a b"
    by blast
  from a b c r1 r2 r3' m r4' show ?thesis by blast
qed

section \<open>The capture groups of the patterns\<close>

text \<open>
  The groups that the source reads take part in every match: \<^verbatim>\<open>match[1]\<close> and
  \<^verbatim>\<open>match[2]\<close> of the namespace pattern, \<^verbatim>\<open>match[3]\<close> of the type pattern, whose
  \<^verbatim>\<open>match[1]\<close> is the empty string or a newline. \<open>nogrp\<close> holds for a pattern without
  capture groups; such a pattern leaves the captures as they are.
\<close>

primrec nogrp :: "rx \<Rightarrow> bool" where
  "nogrp (Lit w) = True"
| "nogrp (Cls k) = True"
| "nogrp (Seqs rs) = list_all nogrp rs"
| "nogrp (Alts rs) = list_all nogrp rs"
| "nogrp (Star r) = nogrp r"
| "nogrp (Plus r) = nogrp r"
| "nogrp (Opt r) = nogrp r"
| "nogrp (Grp n r) = False"
| "nogrp Caret = True"
| "nogrp Dollar = True"
| "nogrp WordB = True"

lemma star_ends_caps:
  assumes "\<And>s s'. s' \<in> set (f s) \<Longrightarrow> snd s' = snd s"
  shows "s' \<in> set (star_ends n f s) \<Longrightarrow> snd s' = snd s"
proof (induction n arbitrary: s)
  case 0
  then show ?case by simp
next
  case (Suc n)
  from Suc.prems[unfolded star_ends_Suc_mem] consider "s' = s"
    | s1 where "s1 \<in> set (f s)" "s' \<in> set (star_ends n f s1)"
    by blast
  then show ?case
  proof cases
    case 1
    then show ?thesis by simp
  next
    case 2
    from Suc.IH[OF 2(2)] assms[OF 2(1)] show ?thesis by simp
  qed
qed

lemma seq_ends_caps:
  assumes "\<And>f s s'. f \<in> set fs \<Longrightarrow> s' \<in> set (f s) \<Longrightarrow> snd s' = snd s"
  shows "s' \<in> set (seq_ends fs s) \<Longrightarrow> snd s' = snd s"
  using assms
proof (induction fs arbitrary: s)
  case Nil
  then show ?case by simp
next
  case (Cons g gs)
  from Cons.prems(1) obtain s1 where s1: "s1 \<in> set (g s)" "s' \<in> set (seq_ends gs s1)"
    by auto
  have "snd s' = snd s1"
  proof (rule Cons.IH[OF s1(2)])
    fix f s2 s3 assume "f \<in> set gs" "s3 \<in> set (f s2)"
    then show "snd s3 = snd s2" using Cons.prems(2)[of f s3 s2] by simp
  qed
  moreover have "snd s1 = snd s" using Cons.prems(2)[of g s1 s] s1(1) by simp
  ultimately show ?case by simp
qed

lemma ends_nogrp: "nogrp r \<Longrightarrow> s' \<in> set (ends r ml t s) \<Longrightarrow> snd s' = snd s"
proof (induction r arbitrary: s s')
  case (Lit w)
  then show ?case by (auto split: if_splits)
next
  case (Cls k)
  then show ?case by (auto split: if_splits)
next
  case (Seqs rs)
  show ?case
  proof (rule seq_ends_caps[where fs = "map (\<lambda>r. ends r ml t) rs"])
    show "s' \<in> set (seq_ends (map (\<lambda>r. ends r ml t) rs) s)" using Seqs.prems(2) by simp
  next
    fix f s1 s2 assume f: "f \<in> set (map (\<lambda>r. ends r ml t) rs)" and m: "s2 \<in> set (f s1)"
    from f obtain r where r: "r \<in> set rs" "f = ends r ml t" by auto
    from Seqs.prems(1) r(1) have "nogrp r" by (simp add: list_all_iff)
    from Seqs.IH[OF r(1) this] m r(2) show "snd s2 = snd s1" by simp
  qed
next
  case (Alts rs)
  from Alts.prems(2) obtain r where r: "r \<in> set rs" "s' \<in> set (ends r ml t s)" by auto
  from Alts.prems(1) r(1) have "nogrp r" by (simp add: list_all_iff)
  from Alts.IH[OF r(1) this r(2)] show ?case .
next
  case (Star r)
  show ?case
  proof (rule star_ends_caps[where f = "ends r ml t" and n = "length t - fst s"])
    show "s' \<in> set (star_ends (length t - fst s) (ends r ml t) s)" using Star.prems(2) by simp
  next
    fix s1 s2 assume "s2 \<in> set (ends r ml t s1)"
    with Star.IH Star.prems(1) show "snd s2 = snd s1" by simp
  qed
next
  case (Plus r)
  from Plus.prems(2) have "\<exists>s1 \<in> set (ends r ml t s).
      s' \<in> set (star_ends (length t - fst s1) (ends r ml t) s1)"
    by (simp only: ends.simps set_concat set_map) blast
  then obtain s1 where s1: "s1 \<in> set (ends r ml t s)"
    "s' \<in> set (star_ends (length t - fst s1) (ends r ml t) s1)"
    by blast
  have "snd s' = snd s1"
  proof (rule star_ends_caps[where f = "ends r ml t" and n = "length t - fst s1"])
    show "s' \<in> set (star_ends (length t - fst s1) (ends r ml t) s1)" by (rule s1(2))
  next
    fix s2 s3 assume "s3 \<in> set (ends r ml t s2)"
    with Plus.IH Plus.prems(1) show "snd s3 = snd s2" by simp
  qed
  moreover from Plus.IH[OF _ s1(1)] Plus.prems(1) have "snd s1 = snd s" by simp
  ultimately show ?case by simp
next
  case (Opt r)
  then show ?case by fastforce
next
  case (Grp n r)
  then show ?case by simp
next
  case Caret
  then show ?case by (auto split: if_splits)
next
  case Dollar
  then show ?case by (auto split: if_splits)
next
  case WordB
  then show ?case by (auto split: if_splits)
qed

lemma ends_Grp:
  assumes "nogrp r" "s' \<in> set (ends (Grp n r) ml t s)"
  shows "snd s' = (n, slice t (fst s) (fst s')) # snd s
         \<and> (\<exists>s0 \<in> set (ends r ml t s). fst s0 = fst s')"
proof -
  from assms(2) obtain s0 where s0: "s0 \<in> set (ends r ml t s)"
    "s' = (fst s0, (n, slice t (fst s) (fst s0)) # snd s0)"
    by auto
  from ends_nogrp[OF assms(1) s0(1)] s0 show ?thesis by auto
qed

lemma match_at_Some:
  assumes "match_at r ml t i = Some m"
  shows "\<exists>s' \<in> set (ends r ml t (i, [])). m_index m = i \<and> m_finish m = fst s' \<and> m_groups m = snd s'"
proof -
  from assms obtain s' ss where s: "ends r ml t (i, []) = s' # ss"
    "m = \<lparr>m_index = i, m_finish = fst s', m_groups = snd s'\<rparr>"
    by (auto simp: match_at_def split: list.splits)
  from s(2) have "m_index m = i \<and> m_finish m = fst s' \<and> m_groups m = snd s'"
    by (cases m) simp
  with s(1) show ?thesis by auto
qed

lemma exec_match_at:
  "exec r ml t li = (Some m, y) \<Longrightarrow> match_at r ml t (m_index m) = Some m"
proof -
  assume "exec r ml t li = (Some m, y)"
  then have "first_match r ml t [li..<Suc (length t)] = Some m"
    by (auto simp del: upt_Suc simp: exec_def split: option.splits)
  from first_match_Some[OF this] show ?thesis by simp
qed

lemma nsRegex_groups:
  assumes "exec nsRegex False t li = (Some m, y)"
  shows "(\<exists>w. group m 1 = Some w) \<and> (group m 2 = Some '';'' \<or> group m 2 = Some ''{'')"
proof -
  from match_at_Some[OF exec_match_at[OF assms]] obtain s' where
    s': "s' \<in> set (ends nsRegex False t (m_index m, []))" "m_groups m = snd s'" by blast
  from s'(1) obtain s3 s4 s5 where
    4: "s4 \<in> set (ends (Grp 1 (Seqs
        [Cls (Union [Rng CHR ''A'' CHR ''Z'', Rng CHR ''a'' CHR ''z'', Ch CHR ''_'']),
         Star (Cls (Union [Rng CHR ''A'' CHR ''Z'', Rng CHR ''a'' CHR ''z'',
                           Rng CHR ''0'' CHR ''9'', Ch CHR ''_'', Ch CHR ''.'']))])) False t s3)" and
    5: "s5 \<in> set (ends (Star (Cls Space)) False t s4)" and
    6: "s' \<in> set (ends (Grp 2 (Alts [Lit '';'', Lit ''{''])) False t s5)"
    unfolding nsRegex_def ends_Seqs_Cons ends_Seqs_Nil by (auto simp del: ends.simps)
  from ends_Grp[OF _ 4] obtain w where c4: "snd s4 = (1, w) # snd s3" by simp
  from ends_nogrp[OF _ 5] have c5: "snd s5 = snd s4" by simp
  from ends_Grp[OF _ 6] obtain s0 where
    c6: "snd s' = (2, slice t (fst s5) (fst s')) # snd s5" and
    s0: "s0 \<in> set (ends (Alts [Lit '';'', Lit ''{'']) False t s5)" "fst s0 = fst s'"
    by auto
  from s0(1) consider "s0 \<in> set (ends (Lit '';'') False t s5)"
    | "s0 \<in> set (ends (Lit ''{'') False t s5)"
    unfolding ends.simps(4) by (auto simp del: ends.simps)
  then have "slice t (fst s5) (fst s') = '';'' \<or> slice t (fst s5) (fst s') = ''{''"
  proof cases
    case 1
    from ends_Lit_mem[OF 1] have "slice t (fst s5) (fst s5 + length '';'') = '';''"
      by (rule slice_Lit)
    moreover from 1 s0(2) have "fst s' = fst s5 + length '';''" by (auto split: if_splits)
    ultimately show ?thesis by simp
  next
    case 2
    from ends_Lit_mem[OF 2] have "slice t (fst s5) (fst s5 + length ''{'') = ''{''"
      by (rule slice_Lit)
    moreover from 2 s0(2) have "fst s' = fst s5 + length ''{''" by (auto split: if_splits)
    ultimately show ?thesis by simp
  qed
  with c4 c5 c6 s'(2) show ?thesis by (auto simp: group_def)
qed

lemma typeRegex_groups:
  assumes "exec typeRegex False t li = (Some m, y)"
  shows "(\<exists>w. group m 3 = Some w) \<and> (group m 1 = Some [] \<or> group m 1 = Some ''\<newline>'')"
proof -
  from match_at_Some[OF exec_match_at[OF assms]] obtain s' where
    s': "s' \<in> set (ends typeRegex False t (m_index m, []))" "m_groups m = snd s'" by blast
  from s'(1) obtain s1 s2 s3 s4 s5 s6 s7 where
    1: "s1 \<in> set (ends (Grp 1 (Alts [Caret, Lit ''\<newline>''])) False t (m_index m, []))" and
    2: "s2 \<in> set (ends (Star (Cls Space)) False t s1)" and
    3: "s3 \<in> set (ends (Star (Alts [Lit ''public'', Lit ''internal'', Lit ''protected'',
                  Lit ''private'', Lit ''sealed'', Lit ''abstract'', Lit ''static'',
                  Lit ''partial'', Lit ''readonly'', Lit ''ref'', Lit ''unsafe'', Lit ''new'',
                  Cls Space])) False t s2)" and
    4: "s4 \<in> set (ends (Star (Cls Space)) False t s3)" and
    5: "s5 \<in> set (ends (Grp 2 (Alts [Lit ''class'', Lit ''struct'', Lit ''interface'',
                   Lit ''enum'', Lit ''record''])) False t s4)" and
    6: "s6 \<in> set (ends (Plus (Cls Space)) False t s5)" and
    7: "s7 \<in> set (ends (Grp 3 (Seqs
        [Cls (Union [Rng CHR ''A'' CHR ''Z'', Rng CHR ''a'' CHR ''z'', Ch CHR ''_'']),
         Star (Cls (Union [Rng CHR ''A'' CHR ''Z'', Rng CHR ''a'' CHR ''z'',
                           Rng CHR ''0'' CHR ''9'', Ch CHR ''_'']))])) False t s6)" and
    8: "s' \<in> set (ends (Opt (Seqs [Star (Cls Space), Lit ''<'',
                   Plus (Cls (Neg (Ch CHR ''>''))), Lit ''>''])) False t s7)"
    unfolding typeRegex_def ends_Seqs_Cons ends_Seqs_Nil by (auto simp del: ends.simps)
  from ends_Grp[OF _ 1] obtain s0 where
    c1: "snd s1 = [(1, slice t (m_index m) (fst s1))]" and
    s0: "s0 \<in> set (ends (Alts [Caret, Lit ''\<newline>'']) False t (m_index m, []))"
      "fst s0 = fst s1"
    by auto
  from s0(1) consider "s0 \<in> set (ends Caret False t (m_index m, []))"
    | "s0 \<in> set (ends (Lit ''\<newline>'') False t (m_index m, []))"
    unfolding ends.simps(4) by (auto simp del: ends.simps)
  then have g: "slice t (m_index m) (fst s1) = [] \<or> slice t (m_index m) (fst s1) = ''\<newline>''"
  proof cases
    case 1
    with s0(2) have "fst s1 = m_index m" by (auto split: if_splits)
    then show ?thesis by (simp add: slice_def)
  next
    case 2
    from ends_Lit_mem[OF 2]
    have "slice t (m_index m) (m_index m + length ''\<newline>'') = ''\<newline>''"
      using slice_Lit[of "''\<newline>''" "m_index m" t] by simp
    moreover from 2 s0(2) have "fst s1 = m_index m + length ''\<newline>''"
      by (auto split: if_splits)
    ultimately show ?thesis by simp
  qed
  from ends_nogrp[OF _ 2] have c2: "snd s2 = snd s1" by simp
  from ends_nogrp[OF _ 3] have c3: "snd s3 = snd s2" by simp
  from ends_nogrp[OF _ 4] have c4: "snd s4 = snd s3" by simp
  from ends_Grp[OF _ 5] obtain k where c5: "snd s5 = (2, k) # snd s4" by simp
  from ends_nogrp[OF _ 6] have c6: "snd s6 = snd s5" by simp
  from ends_Grp[OF _ 7] obtain w where c7: "snd s7 = (3, w) # snd s6" by simp
  from ends_nogrp[OF _ 8] have c8: "snd s' = snd s7" by simp
  from c1 c2 c3 c4 c5 c6 c7 c8 s'(2) g show ?thesis by (auto simp: group_def)
qed

section \<open>Properties of the type splitter\<close>

text \<open>
  Claim C7 (the code differs): the branch for a declaration without a body is taken only
  when no opening brace follows anywhere in the rest of the text, not when none comes
  before the next semicolon. With a brace-bodied declaration later in the text, the
  chunk of the bodyless record runs to the closing brace of that later declaration,
  which gets no chunk of its own.
\<close>

theorem C7_bodyless_record_swallows_next_type:
  "DecompilerService_splitTypes ''record A(int X);\<newline>class B { }''
   = [(''A'', ''record A(int X);\<newline>class B { }'')]"
  by code_simp

section \<open>Totality\<close>

text \<open>The word \<open>w\<close> occurs in the text; the text has one of the type keywords.\<close>

definition occurs :: "string \<Rightarrow> string \<Rightarrow> bool" where
  "occurs w t = list_ex (\<lambda>i. take (length w) (drop i t) = w) [0..<Suc (length t)]"

definition has_type_keyword :: "string \<Rightarrow> bool" where
  "has_type_keyword code =
     list_ex (\<lambda>w. occurs w code) [''class'', ''struct'', ''interface'', ''enum'', ''record'']"

lemma occursI: "take (length w) (drop i t) = w \<Longrightarrow> w \<noteq> [] \<Longrightarrow> occurs w t"
proof -
  assume a: "take (length w) (drop i t) = w" and ne: "w \<noteq> []"
  have "i < length t"
  proof (rule ccontr)
    assume "\<not> i < length t"
    then have "drop i t = []" by simp
    with a ne show False by simp
  qed
  with a show ?thesis by (auto simp: occurs_def list_ex_iff)
qed

lemma typeRegex_keyword:
  assumes "s' \<in> set (ends typeRegex ml code s)"
  shows "has_type_keyword code"
proof -
  from assms obtain s4 s5 where
    "s5 \<in> set (ends (Grp 2 (Alts [Lit ''class'', Lit ''struct'', Lit ''interface'', Lit ''enum'',
                   Lit ''record''])) ml code s4)"
    unfolding typeRegex_def ends_Seqs_Cons by blast
  from ends_Grp_Alts_mem[OF this] obtain r s6 where
    r: "r \<in> set [Lit ''class'', Lit ''struct'', Lit ''interface'', Lit ''enum'', Lit ''record'']"
    and s6: "s6 \<in> set (ends r ml code s4)"
    by blast
  from r obtain w where
    w: "w \<in> set [''class'', ''struct'', ''interface'', ''enum'', ''record'']" "r = Lit w"
    by auto
  from s6 w(2) have "take (length w) (drop (fst s4) code) = w"
    using ends_Lit_mem by blast
  moreover from w(1) have "w \<noteq> []" by auto
  ultimately have "occurs w code" by (rule occursI)
  with w(1) show ?thesis
    unfolding has_type_keyword_def list_ex_iff by blast
qed

lemma typeRegex_no_keyword:
  assumes "\<not> has_type_keyword code"
  shows "exec typeRegex False code li = (None, 0)"
proof -
  have "ends typeRegex False code (i, []) = []" for i
  proof (cases "ends typeRegex False code (i, [])")
    case Nil
    then show ?thesis .
  next
    case (Cons s' ss)
    then have "s' \<in> set (ends typeRegex False code (i, []))" by simp
    from typeRegex_keyword[OF this] assms show ?thesis by simp
  qed
  then have "first_match typeRegex False code [li..<Suc (length code)] = None"
    by (rule first_match_None)
  then show ?thesis by (simp add: exec_def)
qed

lemma splitTypes_no_keyword:
  assumes "\<not> has_type_keyword code"
  shows "DecompilerService_splitTypes code = []"
  unfolding DecompilerService_splitTypes_def
  by (subst DecompilerService_splitTypes_loop.simps) (simp add: typeRegex_no_keyword[OF assms])

text \<open>
  Every loop of the source terminates on every input: each argument lies in the domain of
  the recursion that models the loop, the accessible part of the relation between the
  arguments of a round and those of the round before. A measure that falls with every
  round shows it.
\<close>

lemma accp_measure:
  assumes "\<And>x y. R x y \<Longrightarrow> f x < (f y :: nat)"
  shows "Wellfounded.accp R z"
proof (induction "f z" arbitrary: z rule: less_induct)
  case less
  show ?case
  proof (rule accpI)
    fix y assume "R y z"
    from assms[OF this] show "Wellfounded.accp R y" by (rule less)
  qed
qed

lemma module_tokens_total: "splitByNamespace_tokens_dom z"
proof (rule accp_measure[where f = "\<lambda>(text, lastIndex, tokens). Suc (length text) - lastIndex"])
  fix x y assume "splitByNamespace_tokens_rel x y"
  then show "(case x of (text, lastIndex, tokens) \<Rightarrow> Suc (length text) - lastIndex)
             < (case y of (text, lastIndex, tokens) \<Rightarrow> Suc (length text) - lastIndex)"
  proof (cases rule: splitByNamespace_tokens_rel.cases)
    case (1 t lastIndex tokens r li m)
    from nsRegex_measure[OF 1(4) 1(3)[symmetric], of "[]" "[]"] 1(1,2) show ?thesis by simp
  qed
qed

lemma service_tokens_total: "DecompilerService_tokens_dom z"
proof (rule accp_measure[where f = "\<lambda>(text, lastIndex, tokens). Suc (length text) - lastIndex"])
  fix x y assume "DecompilerService_tokens_rel x y"
  then show "(case x of (text, lastIndex, tokens) \<Rightarrow> Suc (length text) - lastIndex)
             < (case y of (text, lastIndex, tokens) \<Rightarrow> Suc (length text) - lastIndex)"
  proof (cases rule: DecompilerService_tokens_rel.cases)
    case (1 t lastIndex tokens r li m)
    from nsRegex_measure[OF 1(4) 1(3)[symmetric], of "[]" "[]"] 1(1,2) show ?thesis by simp
  qed
qed

lemma module_braces_total: "splitByNamespace_braces_dom z"
  by (rule accp_measure[where f = "\<lambda>(text, j, depth). length text - j"])
    (erule splitByNamespace_braces_rel.cases; simp)

lemma service_braces_total: "DecompilerService_braces_dom z"
  by (rule accp_measure[where f = "\<lambda>(text, j, depth). length text - j"])
    (erule DecompilerService_braces_rel.cases; simp)

lemma splitTypes_braces_total: "DecompilerService_splitTypes_braces_dom z"
  by (rule accp_measure[where f = "\<lambda>(code, j, depth). length code - j"])
    (erule DecompilerService_splitTypes_braces_rel.cases; simp)

lemma splitTypes_loop_total: "DecompilerService_splitTypes_loop_dom z"
proof (rule accp_measure[where f = "\<lambda>(code, lastIndex, result). Suc (length code) - lastIndex"])
  fix x y assume "DecompilerService_splitTypes_loop_rel x y"
  then show "(case x of (code, lastIndex, result) \<Rightarrow> Suc (length code) - lastIndex)
             < (case y of (code, lastIndex, result) \<Rightarrow> Suc (length code) - lastIndex)"
  proof (cases rule: DecompilerService_splitTypes_loop_rel.cases)
    case (1 code lastIndex result r li m start typeName nextIdx chunk)
    from 1(3,4) have e: "(Some m, li) = exec typeRegex False code lastIndex" by simp
    from typeRegex_measure_semi[OF e, of _ "[]" "[]"] 1(1,2,5,8) show ?thesis by simp
  next
    case (2 code lastIndex result r li m start typeName braceStart j nextIdx chunk)
    from 2(3,4) have e: "(Some m, li) = exec typeRegex False code lastIndex" by simp
    from 2(5,7) have b: "indexOf code CHR ''{'' (m_index m
        + (case group m 1 of None \<Rightarrow> 0 | Some g \<Rightarrow> if g = [] then 0 else length g)) = Some braceStart"
      by simp
    from typeRegex_measure_brace[OF e b, of "[]" "[]"] 2(1,2,8,9) show ?thesis by simp
  qed
qed

lemma match_all_total: "match_all_dom z"
proof (rule accp_measure[where f = "\<lambda>(r, ml, t, lastIndex). Suc (length t) - lastIndex"])
  fix x y assume "match_all_rel x y"
  then show "(case x of (r, ml, t, lastIndex) \<Rightarrow> Suc (length t) - lastIndex)
             < (case y of (r, ml, t, lastIndex) \<Rightarrow> Suc (length t) - lastIndex)"
  proof (cases rule: match_all_rel.cases)
    case (1 r ml t lastIndex x' li m)
    from 1(3,4) have e: "(Some m, li) = exec r ml t lastIndex" by simp
    from match_all_measure[OF e] 1(1,2) show ?thesis by simp
  qed
qed

text \<open>
  Claim C8: the core functions are total. No operation of the source on a string can
  raise, and each of its loops terminates on every text: the tokenizer loop and the
  brace counter of both partitioners, the collection of the using lines, and the loop and
  the brace counter of the type splitter. On the empty string the partitioner returns
  exactly one unit, \<^verbatim>\<open>(global)\<close>, with empty body, and the type splitter returns the empty
  mapping for a body without type keyword.
\<close>

theorem C8_core_functions_total:
  "splitByNamespace_tokens_dom (text, 0, [])
   \<and> splitByNamespace_braces_dom (text, j, depth)
   \<and> DecompilerService_tokens_dom (text, 0, [])
   \<and> DecompilerService_braces_dom (text, j, depth)
   \<and> match_all_dom (usingRegex, True, text, 0)
   \<and> DecompilerService_splitTypes_loop_dom (text, 0, [])
   \<and> DecompilerService_splitTypes_braces_dom (text, j, depth)
   \<and> splitByNamespace [] = [(''(global)'', [])]
   \<and> DecompilerService_splitByNamespace [] = [(''(global)'', [])]
   \<and> (\<not> has_type_keyword text \<longrightarrow> DecompilerService_splitTypes text = [])"
proof -
  have "splitByNamespace [] = [(''(global)'', [])]" by code_simp
  then show ?thesis
    using splitTypes_no_keyword[of "text"]
    by (simp add: service_eq module_tokens_total module_braces_total service_tokens_total
        service_braces_total match_all_total splitTypes_loop_total splitTypes_braces_total)
qed

theorem C8_witness:
  "\<not> has_type_keyword ''int x;'' \<and> DecompilerService_splitTypes ''int x;'' = []"
proof -
  have h: "\<not> has_type_keyword ''int x;''" by code_simp
  with C8_core_functions_total[of "''int x;''"] show ?thesis by simp
qed

end
